theory Spec2Isabelle
  imports Complex_Main
begin

section \<open>Data model\<close>

text \<open>
  The module \<^verbatim>\<open>networkx/algorithms/centrality/trophic.py\<close> computes with numpy arrays
  of floating-point numbers. The embedding computes with exact real numbers: a vector is
  a list of reals, a dense matrix the list of its rows.
\<close>

type_synonym vec = "real list"
type_synonym matrix = "real list list"

text \<open>
  The exceptions that can leave \<^verbatim>\<open>trophic_levels\<close>: the decorator
  \<^verbatim>\<open>not_implemented_for('undirected')\<close> raises \<^verbatim>\<open>NetworkXNotImplemented\<close>
  (the specification's DomainTypeError), \<^verbatim>\<open>np.linalg.inv\<close> raises
  \<^verbatim>\<open>LinAlgError\<close> (the specification's SingularSystemError), and the read
  \<^verbatim>\<open>y[i]\<close> raises \<^verbatim>\<open>IndexError\<close> past the end of \<^verbatim>\<open>y\<close>. A dictionary
  read of a missing key raises \<^verbatim>\<open>KeyError\<close>.
\<close>

datatype error = NetworkXNotImplemented | LinAlgError | IndexError | KeyError

text \<open>
  A graph: whether it is directed, its nodes in insertion order, and its edges
  (source, target, attribute dictionary) in insertion order.
\<close>

type_synonym attrs = "(string \<times> real) list"

record 'n graph =
  directed :: bool
  nodes :: "'n list"
  edges :: "('n \<times> 'n \<times> attrs) list"

text \<open>
  A simple directed graph as networkx stores it: no node twice, at most one edge for each
  ordered pair of nodes, both ends of every edge among the nodes.
\<close>

definition wf_graph :: "'n graph \<Rightarrow> bool" where
  "wf_graph G \<longleftrightarrow>
     distinct (nodes G) \<and>
     distinct (map (\<lambda>e. (fst e, fst (snd e))) (edges G)) \<and>
     (\<forall>e \<in> set (edges G). fst e \<in> set (nodes G) \<and> fst (snd e) \<in> set (nodes G))"

text \<open>
  The weight of an edge under the attribute name \<open>weight\<close>, 1 when the edge does not carry
  the attribute. The specification's data model gives every edge a positive weight.
\<close>

definition edge_weight :: "string \<Rightarrow> attrs \<Rightarrow> real" where
  "edge_weight weight d = (case map_of d weight of None \<Rightarrow> 1 | Some x \<Rightarrow> x)"

definition positive_weights :: "'n graph \<Rightarrow> string \<Rightarrow> bool" where
  "positive_weights G weight \<longleftrightarrow> (\<forall>e \<in> set (edges G). 0 < edge_weight weight (snd (snd e)))"

section \<open>The graph library's accessors\<close>

text \<open>
  Modelled from the spec: \<^verbatim>\<open>G.in_degree\<close> is not in the module; section 6 of the
  specification names it as the iteration over (node, in-degree) pairs. The in-degree of a
  node is the number of edges that end in it.
\<close>

definition in_degree :: "'n graph \<Rightarrow> 'n \<Rightarrow> nat" where
  "in_degree G v = length (filter (\<lambda>e. fst (snd e) = v) (edges G))"

text \<open>
  Modelled from the spec: \<^verbatim>\<open>nx.adjacency_matrix\<close> is not in the module; the
  specification describes it as the weighted adjacency accessor, an edge without the
  attribute counting with weight 1 and a missing edge with 0. Row \<open>u\<close>, column \<open>v\<close>
  holds the weight of the edge from \<open>u\<close> to \<open>v\<close>, rows and columns in node order.
\<close>

definition adjacency_matrix :: "'n graph \<Rightarrow> string \<Rightarrow> matrix" where
  "adjacency_matrix G weight =
     map (\<lambda>u. map (\<lambda>v. sum_list (map (\<lambda>e. edge_weight weight (snd (snd e)))
                                   (filter (\<lambda>e. fst e = u \<and> fst (snd e) = v) (edges G))))
                   (nodes G))
         (nodes G)"

section \<open>The array operations\<close>

text \<open>\<^verbatim>\<open>M.T\<close> of a square matrix.\<close>

definition mat_T :: "matrix \<Rightarrow> matrix" where
  "mat_T M = map (\<lambda>j. map (\<lambda>row. row ! j) M) [0..<length M]"

text \<open>
  Indexing with a boolean array, \<^verbatim>\<open>xs[rowsum != 0]\<close>: the entries where the array
  is true.
\<close>

definition compress :: "bool list \<Rightarrow> 'a list \<Rightarrow> 'a list" where
  "compress keep xs = map snd (filter fst (zip keep xs))"

definition eye :: "nat \<Rightarrow> matrix" where
  "eye n = map (\<lambda>i. map (\<lambda>j. if i = j then 1 else 0) [0..<n]) [0..<n]"

definition mat_sub :: "matrix \<Rightarrow> matrix \<Rightarrow> matrix" where
  "mat_sub A B = map2 (map2 (-)) A B"

subsection \<open>Matrix inversion\<close>

text \<open>
  Modelled from the spec: \<^verbatim>\<open>np.linalg.inv\<close> is numpy's; section 9 of the
  specification describes the solver as a capability that returns the solution and fails
  with SingularSystemError on a matrix that is not invertible. In exact arithmetic the
  inverse is unique, so the elimination below returns what every solver returns. It works
  on the rows of the augmented matrix \<open>[A | B]\<close>, a row being the pair of its two
  halves: for each column it takes the first pending row with a nonzero entry there,
  scales it to make that entry 1, and clears the column in every other row.
\<close>

type_synonym arow = "vec \<times> vec"

definition row_scale :: "real \<Rightarrow> arow \<Rightarrow> arow" where
  "row_scale c r = (map (\<lambda>x. c * x) (fst r), map (\<lambda>x. c * x) (snd r))"

definition row_sub :: "arow \<Rightarrow> real \<Rightarrow> arow \<Rightarrow> arow" where
  "row_sub r c q =
     (map2 (\<lambda>x y. x - c * y) (fst r) (fst q), map2 (\<lambda>x y. x - c * y) (snd r) (snd q))"

fun find_pivot :: "nat \<Rightarrow> arow list \<Rightarrow> (arow \<times> arow list) option" where
  "find_pivot k [] = None"
| "find_pivot k (r # rs) =
     (if fst r ! k \<noteq> 0 then Some (r, rs)
      else (case find_pivot k rs of
              None \<Rightarrow> None
            | Some (p, rest) \<Rightarrow> Some (p, r # rest)))"

definition eliminate :: "nat \<Rightarrow> arow \<Rightarrow> arow list \<Rightarrow> arow list" where
  "eliminate k q rs = map (\<lambda>r. row_sub r (fst r ! k) q) rs"

fun gauss_jordan :: "nat list \<Rightarrow> arow list \<Rightarrow> arow list \<Rightarrow> arow list option" where
  "gauss_jordan [] reduced pending = Some reduced"
| "gauss_jordan (k # ks) reduced pending =
     (case find_pivot k pending of
        None \<Rightarrow> None
      | Some (p, rest) \<Rightarrow>
          (let q = row_scale (1 / fst p ! k) p
           in gauss_jordan ks (eliminate k q reduced @ [q]) (eliminate k q rest)))"

definition linalg_inv :: "matrix \<Rightarrow> matrix option" where
  "linalg_inv M =
     map_option (map snd) (gauss_jordan [0..<length M] [] (zip M (eye (length M))))"

section \<open>Trophic levels\<close>

text \<open>
  The second loop of \<^verbatim>\<open>trophic_levels\<close>,
  \<^verbatim>\<open>for i, node_id in enumerate(nonzero_node_ids): levels[node_id] = y[i]\<close>.
  Reading \<^verbatim>\<open>y[i]\<close> past the end of the array raises IndexError.
\<close>

fun assign_levels :: "vec \<Rightarrow> ('n \<rightharpoonup> real) \<Rightarrow> (nat \<times> 'n) list \<Rightarrow> error + ('n \<rightharpoonup> real)" where
  "assign_levels y levels [] = Inr levels"
| "assign_levels y levels ((i, node_id) # rest) =
     (if i < length y then assign_levels y (levels(node_id \<mapsto> y ! i)) rest
      else Inl IndexError)"

text \<open>
  The generators \<^verbatim>\<open>zero_node_ids\<close> and \<^verbatim>\<open>nonzero_node_ids\<close> over
  \<^verbatim>\<open>G.in_degree\<close>, in node order.
\<close>

definition zero_node_ids :: "'n graph \<Rightarrow> 'n list" where
  "zero_node_ids G = filter (\<lambda>node_id. in_degree G node_id = 0) (nodes G)"

definition nonzero_node_ids :: "'n graph \<Rightarrow> 'n list" where
  "nonzero_node_ids G = filter (\<lambda>node_id. in_degree G node_id \<noteq> 0) (nodes G)"

text \<open>
  \<^verbatim>\<open>trophic_levels(G, weight='weight')\<close>, line by line. The decorator
  \<^verbatim>\<open>not_implemented_for('undirected')\<close> runs first: it is not in the module, and the
  specification has it fail on a graph that is not directed before anything is computed.
  \<open>a\<close> is the transposed adjacency matrix, \<open>keep\<close> is \<^verbatim>\<open>rowsum != 0\<close>, the first
  \<open>p\<close> is \<^verbatim>\<open>a[rowsum != 0][:, rowsum != 0]\<close> and the second divides each of its rows
  by the row's sum; \<open>y\<close> is \<^verbatim>\<open>n.sum(axis=1) + 1\<close>. The dictionary \<open>levels\<close> first
  receives 1 for the nodes of in-degree zero, then \<open>y[i]\<close> for the \<open>i\<close>-th node of nonzero
  in-degree.
\<close>

definition trophic_levels :: "'n graph \<Rightarrow> string \<Rightarrow> error + ('n \<rightharpoonup> real)" where
  "trophic_levels G weight =
     (if \<not> directed G then Inl NetworkXNotImplemented
      else
        (let a = mat_T (adjacency_matrix G weight);
             rowsum = map sum_list a;
             keep = map (\<lambda>s. s \<noteq> 0) rowsum;
             p = map (compress keep) (compress keep a);
             p = map2 (\<lambda>row s. map (\<lambda>x. x / s) row) p (compress keep rowsum);
             nn = length p;
             i = eye nn
         in case linalg_inv (mat_sub i p) of
              None \<Rightarrow> Inl LinAlgError
            | Some n \<Rightarrow>
                (let y = map (\<lambda>row. sum_list row + 1) n;
                     levels = foldl (\<lambda>m node_id. m(node_id \<mapsto> 1)) Map.empty (zero_node_ids G)
                 in assign_levels y levels (enumerate 0 (nonzero_node_ids G)))))"

section \<open>The specification's level system\<close>

text \<open>
  These definitions follow the words of the specification, not the code: \<open>a_in G weight i j\<close>
  is \<open>A[i][j]\<close>, the weight of the edge from \<open>j\<close> to \<open>i\<close> (zero without an edge);
  \<open>k_in\<close> is the in-degree weight sum, the row sum of \<open>A\<close> over the nodes; a node is
  non-basal when \<open>k_in\<close> is not zero; \<open>P_matrix\<close> keeps the non-basal rows and columns of
  \<open>A\<close> and divides row \<open>i\<close> by \<open>k_in i\<close>; \<open>level_system\<close> is \<open>I - P\<close>.
\<close>

definition a_in :: "'n graph \<Rightarrow> string \<Rightarrow> 'n \<Rightarrow> 'n \<Rightarrow> real" where
  "a_in G weight i j =
     sum_list (map (\<lambda>e. edge_weight weight (snd (snd e)))
                   (filter (\<lambda>e. fst e = j \<and> fst (snd e) = i) (edges G)))"

definition k_in :: "'n graph \<Rightarrow> string \<Rightarrow> 'n \<Rightarrow> real" where
  "k_in G weight i = sum_list (map (a_in G weight i) (nodes G))"

definition nonbasal :: "'n graph \<Rightarrow> string \<Rightarrow> 'n list" where
  "nonbasal G weight = filter (\<lambda>i. k_in G weight i \<noteq> 0) (nodes G)"

definition P_matrix :: "'n graph \<Rightarrow> string \<Rightarrow> matrix" where
  "P_matrix G weight =
     map (\<lambda>i. map (\<lambda>j. a_in G weight i j / k_in G weight i) (nonbasal G weight))
         (nonbasal G weight)"

definition level_system :: "'n graph \<Rightarrow> string \<Rightarrow> matrix" where
  "level_system G weight = mat_sub (eye (length (nonbasal G weight))) (P_matrix G weight)"

text \<open>
  The product of a matrix and a column vector, to state linear systems; a matrix is
  singular when it sends some nonzero vector to zero.
\<close>

definition dot :: "vec \<Rightarrow> vec \<Rightarrow> real" where
  "dot u v = sum_list (map2 (*) u v)"

definition mat_vec :: "matrix \<Rightarrow> vec \<Rightarrow> vec" where
  "mat_vec M v = map (\<lambda>row. dot row v) M"

definition is_square :: "nat \<Rightarrow> matrix \<Rightarrow> bool" where
  "is_square n M \<longleftrightarrow> length M = n \<and> (\<forall>row\<in>set M. length row = n)"

definition singular :: "nat \<Rightarrow> matrix \<Rightarrow> bool" where
  "singular n M \<longleftrightarrow> (\<exists>v. length v = n \<and> v \<noteq> replicate n 0 \<and> mat_vec M v = replicate n 0)"

text \<open>
  The invariants of the elimination: both halves of a row have the matrix's width; after
  \<open>k\<close> columns the left halves of the reduced rows are the first \<open>k\<close> unit vectors on
  those columns, and the pending rows are zero there.
\<close>

definition len :: "nat \<Rightarrow> arow \<Rightarrow> bool" where
  "len n r \<longleftrightarrow> length (fst r) = n \<and> length (snd r) = n"

definition shape :: "nat \<Rightarrow> arow list \<Rightarrow> arow list \<Rightarrow> bool" where
  "shape k reduced pending \<longleftrightarrow>
     length reduced = k \<and>
     (\<forall>i<k. \<forall>j<k. fst (reduced ! i) ! j = (if i = j then 1 else 0)) \<and>
     (\<forall>r\<in>set pending. \<forall>j<k. fst r ! j = 0)"

text \<open>
  When no pending row has a nonzero entry in column \<open>k\<close>, that column depends on the
  columns before it: every row sends the vector below to zero.
\<close>

definition kernel_vector :: "nat \<Rightarrow> nat \<Rightarrow> arow list \<Rightarrow> vec" where
  "kernel_vector n k reduced =
     map (\<lambda>j. if j < k then fst (reduced ! j) ! k else if j = k then - 1 else 0) [0..<n]"

section \<open>Trophic differences and trophic coherence\<close>

text \<open>
  Modelled from the spec: \<^verbatim>\<open>trophic_differences\<close> and \<^verbatim>\<open>trophic_coherence\<close> are
  called by the tests but the module does not define them; it ends with the comments
  ``trophic_difference for each edge is \<open>x_ij = s_i - s_j\<close>'' and ``trophic_coherence is
  the standard deviation of trophic distances''. Section 4.2 of the specification: for
  every edge \<open>(j, i)\<close> of the graph, \<open>difference[(j, i)] = levels[i] - levels[j]\<close>. The
  mapping is the list of its entries in edge order; reading the level of a node that the
  levels do not cover raises KeyError.
\<close>

fun edge_differences ::
  "('n \<rightharpoonup> real) \<Rightarrow> ('n \<times> 'n \<times> attrs) list \<Rightarrow> error + (('n \<times> 'n) \<times> real) list" where
  "edge_differences levels [] = Inr []"
| "edge_differences levels ((j, i, d) # es) =
     (case levels i of
        None \<Rightarrow> Inl KeyError
      | Some si \<Rightarrow>
          (case levels j of
             None \<Rightarrow> Inl KeyError
           | Some sj \<Rightarrow>
               (case edge_differences levels es of
                  Inl e \<Rightarrow> Inl e
                | Inr difference \<Rightarrow> Inr (((j, i), si - sj) # difference))))"

definition computeDifferences ::
  "'n graph \<Rightarrow> ('n \<rightharpoonup> real) \<Rightarrow> error + (('n \<times> 'n) \<times> real) list" where
  "computeDifferences G levels = edge_differences levels (edges G)"

definition trophic_differences ::
  "'n graph \<Rightarrow> string \<Rightarrow> error + (('n \<times> 'n) \<times> real) list" where
  "trophic_differences G weight =
     (case trophic_levels G weight of
        Inl e \<Rightarrow> Inl e
      | Inr levels \<Rightarrow> computeDifferences G levels)"

text \<open>
  Modelled from the spec: section 4.3, the population standard deviation of the
  differences, the self-loop entries discarded first when cannibalism is excluded. The
  specification leaves the standard deviation of no values open; here it is \<open>None\<close>.
\<close>

definition mean :: "real list \<Rightarrow> real" where
  "mean xs = sum_list xs / real (length xs)"

definition pstd :: "real list \<Rightarrow> real option" where
  "pstd xs =
     (if xs = [] then None
      else Some (sqrt (sum_list (map (\<lambda>x. (x - mean xs)\<^sup>2) xs) / real (length xs))))"

text \<open>The self-loop edges of a graph, those from a node to itself.\<close>

definition selfloop_edges :: "'n graph \<Rightarrow> ('n \<times> 'n \<times> attrs) list" where
  "selfloop_edges G = filter (\<lambda>e. fst e = fst (snd e)) (edges G)"

definition computeCoherence :: "'n graph \<Rightarrow> ('n \<rightharpoonup> real) \<Rightarrow> bool \<Rightarrow> error + real option" where
  "computeCoherence G levels includeCannibalism =
     (case computeDifferences G levels of
        Inl e \<Rightarrow> Inl e
      | Inr difference \<Rightarrow>
          Inr (pstd (map snd (if includeCannibalism then difference
                              else filter (\<lambda>entry. fst (fst entry) \<noteq> snd (fst entry)) difference))))"

definition trophic_coherence :: "'n graph \<Rightarrow> string \<Rightarrow> bool \<Rightarrow> error + real option" where
  "trophic_coherence G weight cannibalism =
     (case trophic_levels G weight of
        Inl e \<Rightarrow> Inl e
      | Inr levels \<Rightarrow> computeCoherence G levels cannibalism)"

section \<open>The graphs of the tests\<close>

text \<open>
  \<^verbatim>\<open>test_trophic_levels\<close>: the chain built by \<^verbatim>\<open>G.add_edge("a", "b")\<close> and
  \<^verbatim>\<open>G.add_edge("b", "c")\<close>; the edges carry no attribute.
\<close>

definition chain_graph :: "string graph" where
  "chain_graph =
     \<lparr>directed = True, nodes = [''a'', ''b'', ''c''],
      edges = [(''a'', ''b'', []), (''b'', ''c'', [])]\<rparr>"

text \<open>
  \<^verbatim>\<open>from_numpy_matrix\<close> numbers the nodes from 0 and gives the edge \<open>u \<rightarrow> v\<close> the entry
  \<open>matrix[u][v]\<close> as its \<^verbatim>\<open>weight\<close> attribute, for every nonzero entry.
  \<^verbatim>\<open>test_trophic_levels_simple\<close> uses the matrix \<open>[[0, 0], [1, 0]]\<close>: the single edge
  runs from node 1 to node 0.
\<close>

definition simple_graph :: "nat graph" where
  "simple_graph =
     \<lparr>directed = True, nodes = [0, 1], edges = [(1, 0, [(''weight'', 1)])]\<rparr>"

text \<open>The two-node graph whose single edge runs from node 0 to node 1.\<close>

definition edge01_graph :: "nat graph" where
  "edge01_graph =
     \<lparr>directed = True, nodes = [0, 1], edges = [(0, 1, [(''weight'', 1)])]\<rparr>"

text \<open>
  The second graph of \<^verbatim>\<open>test_trophic_levels_more_complex\<close>, from the matrix
  \<open>[[0, 1, 1, 0], [0, 0, 1, 1], [0, 0, 0, 1], [0, 0, 0, 0]]\<close>.
\<close>

definition complex_graph :: "nat graph" where
  "complex_graph =
     \<lparr>directed = True, nodes = [0, 1, 2, 3],
      edges = [(0, 1, [(''weight'', 1)]), (0, 2, [(''weight'', 1)]), (1, 2, [(''weight'', 1)]),
               (1, 3, [(''weight'', 1)]), (2, 3, [(''weight'', 1)])]\<rparr>"

text \<open>
  \<^verbatim>\<open>test_trophic_levels_singular_matrix\<close>: the graph of the 4 by 4 identity matrix, a
  self-loop of weight 1 at each of four nodes.
\<close>

definition identity_graph :: "nat graph" where
  "identity_graph =
     \<lparr>directed = True, nodes = [0, 1, 2, 3],
      edges = [(0, 0, [(''weight'', 1)]), (1, 1, [(''weight'', 1)]), (2, 2, [(''weight'', 1)]),
               (3, 3, [(''weight'', 1)])]\<rparr>"


definition undirected_chain :: "string graph" where
  "undirected_chain = chain_graph\<lparr>directed := False\<rparr>"

text \<open>Three isolated nodes: every node is basal.\<close>

definition isolated_graph :: "nat graph" where
  "isolated_graph = \<lparr>directed = True, nodes = [0, 1, 2], edges = []\<rparr>"

text \<open>A basal node 0 feeding node 1, which also feeds on itself.\<close>

definition cannibal_graph :: "nat graph" where
  "cannibal_graph =
     \<lparr>directed = True, nodes = [0, 1],
      edges = [(0, 1, [(''weight'', 1)]), (1, 1, [(''weight'', 1)])]\<rparr>"

text \<open>Node 0 and node 1 with one edge between them, of weight 0.\<close>

definition zero_weight_graph :: "nat graph" where
  "zero_weight_graph =
     \<lparr>directed = True, nodes = [0, 1], edges = [(0, 1, [(''weight'', 0)])]\<rparr>"

text \<open>The tolerance of the tests' comparisons of levels.\<close>

definition within_tolerance :: "real \<Rightarrow> real \<Rightarrow> bool" where
  "within_tolerance x y \<longleftrightarrow> \<bar>x - y\<bar> \<le> 1 / 10 ^ 7"

section \<open>Properties of the array operations\<close>


lemma len_row_scale: "len n r \<Longrightarrow> len n (row_scale c r)"
  by (simp add: len_def row_scale_def)

lemma len_row_sub: "len n r \<Longrightarrow> len n q \<Longrightarrow> len n (row_sub r c q)"
  by (simp add: len_def row_sub_def)

lemma find_pivot_Some:
  "find_pivot k rs = Some (p, rest) \<Longrightarrow>
     fst p ! k \<noteq> 0 \<and> set rs = insert p (set rest) \<and> length rs = Suc (length rest)"
  by (induction rs arbitrary: rest) (auto split: if_splits option.splits)

lemma find_pivot_None: "find_pivot k rs = None \<Longrightarrow> \<forall>r\<in>set rs. fst r ! k = 0"
  by (induction rs) (auto split: if_splits option.splits)

lemma row_scale_inverse: "c \<noteq> 0 \<Longrightarrow> row_scale c (row_scale (1 / c) p) = p"
  by (cases p) (simp add: row_scale_def comp_def)

lemma map2_sub_inverse:
  "length xs = length ys \<Longrightarrow>
     map2 (\<lambda>x y. x - (- c) * y) (map2 (\<lambda>x y. x - c * y) xs ys) ys = (xs :: real list)"
  by (induction xs ys rule: list_induct2) auto

lemma row_sub_inverse: "len n r \<Longrightarrow> len n q \<Longrightarrow> row_sub (row_sub r c q) (- c) q = r"
  by (simp add: row_sub_def len_def map2_sub_inverse del: minus_mult_minus mult_minus_left)

lemma set_eliminate: "set (eliminate k q rs) = (\<lambda>r. row_sub r (fst r ! k) q) ` set rs"
  by (simp add: eliminate_def)

lemma gauss_jordan_forward:
  assumes scale: "\<And>c u. Phi u \<Longrightarrow> Phi (row_scale c u)"
    and sub: "\<And>c u v. Phi u \<Longrightarrow> Phi v \<Longrightarrow> Phi (row_sub u c v)"
  shows "gauss_jordan ks reduced pending = Some res \<Longrightarrow>
     \<forall>r\<in>set reduced \<union> set pending. Phi r \<Longrightarrow> \<forall>r\<in>set res. Phi r"
proof (induction ks arbitrary: reduced pending)
  case Nil
  then show ?case by simp
next
  case (Cons k ks)
  from Cons.prems(1) obtain p rest where fp: "find_pivot k pending = Some (p, rest)"
    by (auto split: option.splits)
  define q where "q = row_scale (1 / fst p ! k) p"
  from Cons.prems(1) fp
  have run: "gauss_jordan ks (eliminate k q reduced @ [q]) (eliminate k q rest) = Some res"
    by (simp add: q_def Let_def)
  from find_pivot_Some [OF fp] have mem: "set pending = insert p (set rest)" by simp
  with Cons.prems(2) have "Phi p" by simp
  then have q: "Phi q" unfolding q_def by (rule scale)
  have "\<forall>r\<in>set reduced \<union> set rest. Phi (row_sub r (fst r ! k) q)"
    using Cons.prems(2) mem q by (auto intro!: sub)
  then have "\<forall>r\<in>set (eliminate k q reduced @ [q]) \<union> set (eliminate k q rest). Phi r"
    using q by (simp add: set_eliminate ball_Un)
  with Cons.IH [OF run] show ?case by blast
qed

lemma eliminate_step_len:
  assumes fp: "find_pivot k pending = Some (p, rest)"
    and q: "q = row_scale (1 / fst p ! k) p"
    and lens: "\<forall>r\<in>set reduced \<union> set pending. len n r"
  shows "\<forall>r\<in>set (eliminate k q reduced @ [q]) \<union> set (eliminate k q rest). len n r"
proof -
  from find_pivot_Some [OF fp] have mem: "set pending = insert p (set rest)" by simp
  with lens have "len n p" by simp
  then have "len n q" unfolding q by (rule len_row_scale)
  with lens mem show ?thesis by (simp add: set_eliminate ball_Un len_row_sub)
qed

text \<open>Each step can be undone: the rows before it are combinations of the rows after it.\<close>

lemma eliminate_step_backward:
  assumes scale: "\<And>c u. len n u \<Longrightarrow> Phi u \<Longrightarrow> Phi (row_scale c u)"
    and sub: "\<And>c u v. len n u \<Longrightarrow> len n v \<Longrightarrow> Phi u \<Longrightarrow> Phi v \<Longrightarrow> Phi (row_sub u c v)"
    and fp: "find_pivot k pending = Some (p, rest)"
    and q: "q = row_scale (1 / fst p ! k) p"
    and lens: "\<forall>r\<in>set reduced \<union> set pending. len n r"
    and new: "\<forall>r\<in>set (eliminate k q reduced @ [q]) \<union> set (eliminate k q rest). Phi r"
  shows "\<forall>r\<in>set reduced \<union> set pending. Phi r"
proof -
  from find_pivot_Some [OF fp]
  have mem: "set pending = insert p (set rest)" and piv: "fst p ! k \<noteq> 0" by simp_all
  from lens mem have lp: "len n p" by simp
  then have lq: "len n q" unfolding q by (rule len_row_scale)
  from new have Pq: "Phi q" by simp
  have "Phi (row_scale (fst p ! k) q)" using lq Pq by (rule scale)
  then have Pp: "Phi p" using piv by (simp add: q row_scale_inverse)
  have other: "Phi r" if r: "r \<in> set reduced \<union> set rest" for r
  proof -
    let ?r' = "row_sub r (fst r ! k) q"
    from r lens mem have lr: "len n r" by auto
    from r new have r': "Phi ?r'" by (auto simp: set_eliminate ball_Un)
    have "Phi (row_sub ?r' (- (fst r ! k)) q)"
      by (rule sub [OF len_row_sub [OF lr lq] lq r' Pq])
    then show ?thesis using lr lq by (simp add: row_sub_inverse)
  qed
  show ?thesis using Pp other mem by auto
qed

lemma gauss_jordan_backward:
  assumes scale: "\<And>c u. len n u \<Longrightarrow> Phi u \<Longrightarrow> Phi (row_scale c u)"
    and sub: "\<And>c u v. len n u \<Longrightarrow> len n v \<Longrightarrow> Phi u \<Longrightarrow> Phi v \<Longrightarrow> Phi (row_sub u c v)"
  shows "gauss_jordan ks reduced pending = Some res \<Longrightarrow> length pending = length ks \<Longrightarrow>
     \<forall>r\<in>set reduced \<union> set pending. len n r \<Longrightarrow> \<forall>r\<in>set res. Phi r \<Longrightarrow>
     \<forall>r\<in>set reduced \<union> set pending. Phi r"
proof (induction ks arbitrary: reduced pending)
  case Nil
  then show ?case by simp
next
  case (Cons k ks)
  from Cons.prems(1) obtain p rest where fp: "find_pivot k pending = Some (p, rest)"
    by (auto split: option.splits)
  define q where "q = row_scale (1 / fst p ! k) p"
  from Cons.prems(1) fp
  have run: "gauss_jordan ks (eliminate k q reduced @ [q]) (eliminate k q rest) = Some res"
    by (simp add: q_def Let_def)
  from find_pivot_Some [OF fp] Cons.prems(2)
  have lrest: "length (eliminate k q rest) = length ks"
    by (simp add: eliminate_def)
  have lens: "\<forall>r\<in>set (eliminate k q reduced @ [q]) \<union> set (eliminate k q rest). len n r"
    using fp q_def Cons.prems(3) by (rule eliminate_step_len)
  from Cons.IH [OF run lrest lens Cons.prems(4)]
  have new: "\<forall>r\<in>set (eliminate k q reduced @ [q]) \<union> set (eliminate k q rest). Phi r" .
  show ?case
    by (rule eliminate_step_backward [where Phi = Phi, OF scale sub fp q_def Cons.prems(3) new])
qed

lemma dot_nth: "length u = length v \<Longrightarrow> dot u v = (\<Sum>i<length u. u ! i * v ! i)"
proof -
  assume l: "length u = length v"
  have "map2 (*) u v = map (\<lambda>i. u ! i * v ! i) [0..<length u]"
    using l by (intro nth_equalityI) simp_all
  then show ?thesis
    by (simp add: dot_def interv_sum_list_conv_sum_set_nat atLeast0LessThan)
qed

lemma dot_scale: "dot (map (\<lambda>x. c * x) u) v = c * dot u v"
proof (induction u arbitrary: v)
  case Nil
  then show ?case by (simp add: dot_def)
next
  case (Cons a u)
  then show ?case by (cases v) (simp_all add: dot_def algebra_simps)
qed

lemma dot_sub:
  "length a = length b \<Longrightarrow> length b = length v \<Longrightarrow>
     dot (map2 (\<lambda>x y. x - c * y) a b) v = dot a v - c * dot b v"
proof (induction a b arbitrary: v rule: list_induct2)
  case Nil
  then show ?case by (simp add: dot_def)
next
  case (Cons x xs y ys)
  then show ?case by (cases v) (simp_all add: dot_def algebra_simps)
qed

lemma eye_nth: "i < n \<Longrightarrow> j < n \<Longrightarrow> eye n ! i ! j = (if i = j then 1 else 0)"
  by (simp add: eye_def)

lemma length_eye [simp]: "length (eye n) = n"
  by (simp add: eye_def)

lemma length_eye_nth [simp]: "i < n \<Longrightarrow> length (eye n ! i) = n"
  by (simp add: eye_def)

lemma dot_eye: "i < n \<Longrightarrow> length v = n \<Longrightarrow> dot (eye n ! i) v = v ! i"
proof -
  assume i: "i < n" and l: "length v = n"
  have "dot (eye n ! i) v = (\<Sum>j<n. eye n ! i ! j * v ! j)"
    using i l by (simp add: dot_nth)
  also have "\<dots> = (\<Sum>j<n. if j = i then v ! j else 0)"
    using i by (intro sum.cong) (auto simp: eye_nth)
  also have "\<dots> = v ! i"
    using i by simp
  finally show ?thesis .
qed

lemma length_mat_vec [simp]: "length (mat_vec M v) = length M"
  by (simp add: mat_vec_def)

lemma fst_row_scale_nth: "j < length (fst r) \<Longrightarrow> fst (row_scale c r) ! j = c * fst r ! j"
  by (simp add: row_scale_def)

lemma fst_row_sub_nth:
  "len n r \<Longrightarrow> len n q \<Longrightarrow> j < n \<Longrightarrow> fst (row_sub r c q) ! j = fst r ! j - c * fst q ! j"
  by (simp add: row_sub_def len_def)

lemma shape_step:
  assumes sh: "shape k reduced pending"
    and fp: "find_pivot k pending = Some (p, rest)"
    and lens: "\<forall>r\<in>set reduced \<union> set pending. len n r"
    and k: "k < n"
    and q: "q = row_scale (1 / fst p ! k) p"
  shows "shape (Suc k) (eliminate k q reduced @ [q]) (eliminate k q rest)"
proof -
  from find_pivot_Some [OF fp]
  have mem: "set pending = insert p (set rest)" and piv: "fst p ! k \<noteq> 0" by simp_all
  from lens mem have lp: "len n p" by simp
  then have lq: "len n q" unfolding q by (rule len_row_scale)
  from sh have lred: "length reduced = k" by (simp add: shape_def)
  have qk: "fst q ! k = 1"
    using lp k piv by (simp add: q fst_row_scale_nth len_def)
  have q0: "fst q ! j = 0" if "j < k" for j
  proof -
    from sh mem that have "fst p ! j = 0" by (simp add: shape_def)
    then show ?thesis using lp k that by (simp add: q fst_row_scale_nth len_def)
  qed
  have low: "fst (row_sub r (fst r ! k) q) ! j = fst r ! j" if "len n r" "j < k" for r j
    using that lq k q0 by (simp add: fst_row_sub_nth)
  have atk: "fst (row_sub r (fst r ! k) q) ! k = 0" if "len n r" for r
    using that lq k qk by (simp add: fst_row_sub_nth)
  have red: "fst ((eliminate k q reduced @ [q]) ! i) ! j = (if i = j then 1 else 0)"
    if ij: "i < Suc k" "j < Suc k" for i j
  proof (cases "i < k")
    case True
    with lens lred have li: "len n (reduced ! i)" by simp
    have e: "(eliminate k q reduced @ [q]) ! i = row_sub (reduced ! i) (fst (reduced ! i) ! k) q"
      using True lred by (simp add: eliminate_def nth_append)
    show ?thesis
    proof (cases "j < k")
      case True
      with \<open>i < k\<close> sh show ?thesis by (simp add: e low [OF li] shape_def)
    next
      case False
      with ij have "j = k" by simp
      with \<open>i < k\<close> show ?thesis by (simp add: e atk [OF li])
    qed
  next
    case False
    with ij have i: "i = k" by simp
    have e: "(eliminate k q reduced @ [q]) ! k = q"
      using lred by (simp add: eliminate_def nth_append)
    show ?thesis
    proof (cases "j < k")
      case True
      then show ?thesis by (simp add: i e q0)
    next
      case False
      with ij have "j = k" by simp
      then show ?thesis by (simp add: i e qk)
    qed
  qed
  have pend: "fst r ! j = 0" if "r \<in> set (eliminate k q rest)" "j < Suc k" for r j
  proof -
    from that(1) obtain r0 where r0: "r0 \<in> set rest" and r: "r = row_sub r0 (fst r0 ! k) q"
      by (auto simp: set_eliminate)
    from r0 lens mem have l0: "len n r0" by simp
    show ?thesis
    proof (cases "j < k")
      case True
      with sh r0 mem show ?thesis by (simp add: r low [OF l0] shape_def)
    next
      case False
      with that(2) have "j = k" by simp
      then show ?thesis by (simp add: r atk [OF l0])
    qed
  qed
  show ?thesis
    unfolding shape_def
  proof (intro conjI allI impI ballI)
    show "length (eliminate k q reduced @ [q]) = Suc k"
      using lred by (simp add: eliminate_def)
  qed (rule red, assumption+, rule pend, assumption+)
qed

lemma gauss_jordan_shape:
  "gauss_jordan [k..<n] reduced pending = Some res \<Longrightarrow> shape k reduced pending \<Longrightarrow>
     \<forall>r\<in>set reduced \<union> set pending. len n r \<Longrightarrow> k \<le> n \<Longrightarrow> shape n res []"
proof (induction "n - k" arbitrary: k reduced pending)
  case 0
  then show ?case by (simp add: shape_def)
next
  case (Suc m)
  then have k: "k < n" and upt: "[k..<n] = k # [Suc k..<n]"
    by (simp_all add: upt_conv_Cons)
  from Suc.prems(1) obtain p rest where fp: "find_pivot k pending = Some (p, rest)"
    by (auto simp: upt split: option.splits)
  define q where "q = row_scale (1 / fst p ! k) p"
  from Suc.prems(1) fp
  have run: "gauss_jordan [Suc k..<n] (eliminate k q reduced @ [q]) (eliminate k q rest) = Some res"
    by (simp add: upt q_def Let_def)
  from find_pivot_Some [OF fp] have mem: "set pending = insert p (set rest)" by simp
  from Suc.prems(3) mem have "len n p" by simp
  then have lq: "len n q" unfolding q_def by (rule len_row_scale)
  have lens: "\<forall>r\<in>set (eliminate k q reduced @ [q]) \<union> set (eliminate k q rest). len n r"
    using Suc.prems(3) mem lq by (simp add: set_eliminate ball_Un len_row_sub)
  have sh: "shape (Suc k) (eliminate k q reduced @ [q]) (eliminate k q rest)"
    using Suc.prems(2) fp Suc.prems(3) k q_def by (rule shape_step)
  from Suc.hyps(2) have m: "m = n - Suc k" by simp
  from Suc.hyps(1) [OF m run sh lens] k show ?case by simp
qed

lemma zip_eye_shape: "shape 0 [] rs"
  by (simp add: shape_def)

lemma shape_eye:
  assumes "shape n res []" and "\<forall>r\<in>set res. len n r"
  shows "map fst res = eye n"
proof (rule nth_equalityI)
  from assms(1) show l: "length (map fst res) = length (eye n)" by (simp add: shape_def)
  fix i assume "i < length (map fst res)"
  with l have i: "i < n" and ir: "i < length res" by simp_all
  with assms(2) have li: "length (fst (res ! i)) = n" by (simp add: len_def)
  have "fst (res ! i) = eye n ! i"
  proof (rule nth_equalityI)
    show "length (fst (res ! i)) = length (eye n ! i)" using li i by simp
    fix j assume "j < length (fst (res ! i))"
    with li have "j < n" by simp
    with i assms(1) show "fst (res ! i) ! j = eye n ! i ! j"
      by (simp add: shape_def eye_nth)
  qed
  with ir show "map fst res ! i = eye n ! i" by simp
qed

text \<open>The result of the elimination on \<open>[M | I]\<close> is \<open>[I | N]\<close>.\<close>

lemma linalg_inv_rows:
  assumes inv: "linalg_inv M = Some N" and sq: "is_square n M"
  obtains res where "gauss_jordan [0..<n] [] (zip M (eye n)) = Some res"
    and "res = zip (eye n) N" and "is_square n N"
proof -
  from sq have lM: "length M = n" by (simp add: is_square_def)
  from inv lM obtain res where run: "gauss_jordan [0..<n] [] (zip M (eye n)) = Some res"
    and N: "N = map snd res" by (auto simp: linalg_inv_def)
  have lens0: "\<forall>r\<in>set [] \<union> set (zip M (eye n)). len n r"
    using sq by (auto simp: is_square_def len_def in_set_zip)
  have lens: "\<forall>r\<in>set res. len n r"
    by (rule gauss_jordan_forward [where Phi = "len n", OF len_row_scale len_row_sub run lens0])
  have sh: "shape n res []"
    by (rule gauss_jordan_shape [OF run zip_eye_shape lens0]) simp
  from shape_eye [OF sh lens] have fst: "map fst res = eye n" .
  have "res = zip (map fst res) (map snd res)" by (simp add: zip_map_fst_snd)
  with fst N have res: "res = zip (eye n) N" by simp
  from sh N have "length N = n" by (simp add: shape_def)
  with lens N have "is_square n N" by (auto simp: is_square_def len_def)
  with run res show ?thesis by (rule that)
qed

lemma mat_vec_nth: "i < length M \<Longrightarrow> mat_vec M v ! i = dot (M ! i) v"
  by (simp add: mat_vec_def)

lemma row_scale_dot:
  "dot (fst (row_scale c u)) v = c * dot (fst u) v" "dot (snd (row_scale c u)) w = c * dot (snd u) w"
  by (simp_all add: row_scale_def dot_scale)

lemma row_sub_dot:
  assumes "len n u" "len n q"
  shows "length v = n \<Longrightarrow> dot (fst (row_sub u c q)) v = dot (fst u) v - c * dot (fst q) v"
    and "length w = n \<Longrightarrow> dot (snd (row_sub u c q)) w = dot (snd u) w - c * dot (snd q) w"
  using assms by (simp_all add: row_sub_def len_def dot_sub)

lemma linalg_inv_left:
  assumes inv: "linalg_inv M = Some N" and sq: "is_square n M" and v: "length v = n"
  shows "mat_vec N (mat_vec M v) = v"
proof -
  from inv sq obtain res where run: "gauss_jordan [0..<n] [] (zip M (eye n)) = Some res"
    and res: "res = zip (eye n) N" and sqN: "is_square n N"
    by (rule linalg_inv_rows)
  from sq sqN have lM: "length M = n" and lN: "length N = n" by (simp_all add: is_square_def)
  define Phi where
    "Phi r \<longleftrightarrow> len n r \<and> (\<forall>v. length v = n \<longrightarrow> dot (fst r) v = dot (snd r) (mat_vec M v))" for r
  have scale: "Phi (row_scale c u)" if "Phi u" for c u
    using that by (simp add: Phi_def len_row_scale row_scale_dot)
  have sub: "Phi (row_sub u c q)" if "Phi u" "Phi q" for c u q
    using that lM by (simp add: Phi_def len_row_sub row_sub_dot [where n = n] algebra_simps)
  have init: "\<forall>r\<in>set [] \<union> set (zip M (eye n)). Phi r"
    using sq by (auto simp: Phi_def is_square_def len_def in_set_zip dot_eye mat_vec_nth)
  have fin: "\<forall>r\<in>set res. Phi r"
    by (rule gauss_jordan_forward [where Phi = Phi, OF scale sub run init])
  show ?thesis
  proof (rule nth_equalityI)
    show "length (mat_vec N (mat_vec M v)) = length v" using lN v by simp
    fix i assume "i < length (mat_vec N (mat_vec M v))"
    with lN have i: "i < n" by simp
    with lN res have "(eye n ! i, N ! i) \<in> set res"
      by (auto simp: in_set_zip)
    with fin v have "dot (eye n ! i) v = dot (N ! i) (mat_vec M v)"
      by (auto simp: Phi_def)
    with i v lN show "mat_vec N (mat_vec M v) ! i = v ! i"
      by (simp add: dot_eye mat_vec_nth)
  qed
qed

lemma linalg_inv_right:
  assumes inv: "linalg_inv M = Some N" and sq: "is_square n M" and v: "length v = n"
  shows "mat_vec M (mat_vec N v) = v"
proof -
  from inv sq obtain res where run: "gauss_jordan [0..<n] [] (zip M (eye n)) = Some res"
    and res: "res = zip (eye n) N" and sqN: "is_square n N"
    by (rule linalg_inv_rows)
  from sq sqN have lM: "length M = n" and lN: "length N = n" by (simp_all add: is_square_def)
  define Phi where
    "Phi r \<longleftrightarrow> (\<forall>v. length v = n \<longrightarrow> dot (snd r) v = dot (fst r) (mat_vec N v))" for r
  have scale: "Phi (row_scale c u)" if "len n u" "Phi u" for c u
    using that by (simp add: Phi_def row_scale_dot)
  have sub: "Phi (row_sub u c q)" if "len n u" "len n q" "Phi u" "Phi q" for c u q
    using that lN by (simp add: Phi_def row_sub_dot [where n = n] algebra_simps)
  have lens: "\<forall>r\<in>set [] \<union> set (zip M (eye n)). len n r"
    using sq by (auto simp: is_square_def len_def in_set_zip)
  have fin: "\<forall>r\<in>set res. Phi r"
    using lN by (auto simp: res Phi_def in_set_zip dot_eye mat_vec_nth)
  have pl: "length (zip M (eye n)) = length [0..<n]" using lM by simp
  have init: "\<forall>r\<in>set [] \<union> set (zip M (eye n)). Phi r"
    by (rule gauss_jordan_backward [where Phi = Phi and n = n, OF scale sub run pl lens fin])
  show ?thesis
  proof (rule nth_equalityI)
    show "length (mat_vec M (mat_vec N v)) = length v" using lM v by simp
    fix i assume "i < length (mat_vec M (mat_vec N v))"
    with lM have i: "i < n" by simp
    with lM have "(M ! i, eye n ! i) \<in> set (zip M (eye n))"
      by (auto simp: in_set_zip)
    with init v have "dot (eye n ! i) v = dot (M ! i) (mat_vec N v)"
      by (auto simp: Phi_def)
    with i v lM show "mat_vec M (mat_vec N v) ! i = v ! i"
      by (simp add: dot_eye mat_vec_nth)
  qed
qed

lemma length_linalg_inv: "linalg_inv M = Some N \<Longrightarrow> is_square n M \<Longrightarrow> is_square n N"
  by (erule linalg_inv_rows) auto

lemma dot_ones: "length u = n \<Longrightarrow> dot u (replicate n 1) = sum_list u"
  by (simp add: dot_nth sum_list_sum_nth atLeast0LessThan)

lemma dot_zeros: "length u = n \<Longrightarrow> dot u (replicate n 0) = 0"
  by (simp add: dot_nth)

lemma mat_vec_ones: "is_square n N \<Longrightarrow> mat_vec N (replicate n 1) = map sum_list N"
  by (simp add: mat_vec_def is_square_def dot_ones)

lemma mat_vec_zeros: "is_square n N \<Longrightarrow> mat_vec N (replicate n 0) = replicate n 0"
  by (auto simp: mat_vec_def is_square_def dot_zeros intro!: nth_equalityI)

lemma linalg_inv_singular:
  assumes sq: "is_square n M" and sing: "singular n M"
  shows "linalg_inv M = None"
proof (cases "linalg_inv M")
  case None
  then show ?thesis .
next
  case (Some N)
  from sing obtain v where v: "length v = n" "v \<noteq> replicate n 0" "mat_vec M v = replicate n 0"
    by (auto simp: singular_def)
  from Some sq have "is_square n N" by (rule length_linalg_inv)
  then have "mat_vec N (mat_vec M v) = replicate n 0"
    by (simp add: v mat_vec_zeros)
  moreover from Some sq v(1) have "mat_vec N (mat_vec M v) = v" by (rule linalg_inv_left)
  ultimately show ?thesis using v(2) by simp
qed


subsection \<open>The inversion fails only on singular matrices\<close>

lemma length_kernel_vector [simp]: "length (kernel_vector n k reduced) = n"
  by (simp add: kernel_vector_def)

lemma kernel_vector_nth:
  "j < n \<Longrightarrow> kernel_vector n k reduced ! j =
     (if j < k then fst (reduced ! j) ! k else if j = k then - 1 else 0)"
  by (simp add: kernel_vector_def)

lemma kernel_vector_nonzero: "k < n \<Longrightarrow> kernel_vector n k reduced \<noteq> replicate n 0"
proof
  assume k: "k < n" and "kernel_vector n k reduced = replicate n 0"
  then have "kernel_vector n k reduced ! k = replicate n (0::real) ! k" by simp
  with k show False by (simp add: kernel_vector_nth)
qed

lemma kernel_vector_pending:
  assumes sh: "shape k reduced pending" and k: "k < n"
    and r: "r \<in> set pending" and l: "len n r" and z: "fst r ! k = 0"
  shows "dot (fst r) (kernel_vector n k reduced) = 0"
proof -
  have "fst r ! j * kernel_vector n k reduced ! j = 0" if "j < n" for j
    using that sh r z by (auto simp: kernel_vector_nth shape_def)
  then have "(\<Sum>j<n. fst r ! j * kernel_vector n k reduced ! j) = 0"
    by (intro sum.neutral) simp
  with l show ?thesis
    by (simp add: dot_nth len_def)
qed

lemma kernel_vector_reduced:
  assumes sh: "shape k reduced pending" and k: "k < n"
    and i: "i < k" and l: "len n (reduced ! i)"
  shows "dot (fst (reduced ! i)) (kernel_vector n k reduced) = 0"
proof -
  let ?r = "fst (reduced ! i)"
  let ?v = "kernel_vector n k reduced"
  have summand: "?r ! j * ?v ! j = (if j = i then ?r ! k else 0) + (if j = k then - (?r ! k) else 0)"
    if j: "j < n" for j
  proof (cases "j < k")
    case True
    with sh i have "?r ! j = (if i = j then 1 else 0)" by (simp add: shape_def)
    with True j show ?thesis by (auto simp: kernel_vector_nth)
  next
    case False
    with j i show ?thesis by (auto simp: kernel_vector_nth)
  qed
  from l have "dot ?r ?v = (\<Sum>j<n. ?r ! j * ?v ! j)"
    by (simp add: dot_nth len_def)
  also have "\<dots> = (\<Sum>j<n. (if j = i then ?r ! k else 0) + (if j = k then - (?r ! k) else 0))"
    by (intro sum.cong refl) (simp add: summand)
  also have "\<dots> = ?r ! k + - (?r ! k)"
    using i k by (simp add: sum.distrib)
  finally show ?thesis by simp
qed

lemma gauss_jordan_None:
  "gauss_jordan [k..<n] reduced pending = None \<Longrightarrow> shape k reduced pending \<Longrightarrow>
     \<forall>r\<in>set reduced \<union> set pending. len n r \<Longrightarrow> k \<le> n \<Longrightarrow>
     \<exists>v. length v = n \<and> v \<noteq> replicate n 0 \<and> (\<forall>r\<in>set reduced \<union> set pending. dot (fst r) v = 0)"
proof (induction "n - k" arbitrary: k reduced pending)
  case 0
  then show ?case by simp
next
  case (Suc m)
  then have k: "k < n" and upt: "[k..<n] = k # [Suc k..<n]"
    by (simp_all add: upt_conv_Cons)
  show ?case
  proof (cases "find_pivot k pending")
    case None
    let ?v = "kernel_vector n k reduced"
    from None have z: "\<forall>r\<in>set pending. fst r ! k = 0" by (rule find_pivot_None)
    have "dot (fst r) ?v = 0" if r: "r \<in> set reduced \<union> set pending" for r
    proof (cases "r \<in> set pending")
      case True
      with Suc.prems(2) k show ?thesis
        using Suc.prems(3) z by (intro kernel_vector_pending) auto
    next
      case False
      with r have "r \<in> set reduced" by simp
      then obtain i where i: "i < length reduced" "r = reduced ! i"
        by (auto simp: in_set_conv_nth)
      from Suc.prems(2) have "length reduced = k" by (simp add: shape_def)
      with i Suc.prems(2) k show ?thesis
        using Suc.prems(3) by (simp add: kernel_vector_reduced)
    qed
    moreover have "length ?v = n" by simp
    moreover from k have "?v \<noteq> replicate n 0" by (rule kernel_vector_nonzero)
    ultimately show ?thesis by blast
  next
    case (Some a)
    then obtain p rest where fp: "find_pivot k pending = Some (p, rest)" by (cases a) simp
    define q where "q = row_scale (1 / fst p ! k) p"
    from Suc.prems(1) fp
    have run: "gauss_jordan [Suc k..<n] (eliminate k q reduced @ [q]) (eliminate k q rest) = None"
      by (simp add: upt q_def Let_def)
    have lens: "\<forall>r\<in>set (eliminate k q reduced @ [q]) \<union> set (eliminate k q rest). len n r"
      using fp q_def Suc.prems(3) by (rule eliminate_step_len)
    have sh: "shape (Suc k) (eliminate k q reduced @ [q]) (eliminate k q rest)"
      using Suc.prems(2) fp Suc.prems(3) k q_def by (rule shape_step)
    from Suc.hyps(2) have m: "m = n - Suc k" by simp
    from Suc.hyps(1) [OF m run sh lens] k obtain v where v: "length v = n" "v \<noteq> replicate n 0"
      and new: "\<forall>r\<in>set (eliminate k q reduced @ [q]) \<union> set (eliminate k q rest).
        dot (fst r) v = 0"
      by auto
    have scale: "dot (fst (row_scale c u)) v = 0" if "len n u" "dot (fst u) v = 0" for c u
      using that by (simp add: row_scale_dot)
    have sub: "dot (fst (row_sub u c w)) v = 0"
      if "len n u" "len n w" "dot (fst u) v = 0" "dot (fst w) v = 0" for c u w
      using that v(1) by (simp add: row_sub_dot [where n = n])
    have "\<forall>r\<in>set reduced \<union> set pending. dot (fst r) v = 0"
      by (rule eliminate_step_backward [where Phi = "\<lambda>r. dot (fst r) v = 0",
            OF scale sub fp q_def Suc.prems(3) new])
    with v show ?thesis by blast
  qed
qed

lemma linalg_inv_None:
  assumes none: "linalg_inv M = None" and sq: "is_square n M"
  shows "singular n M"
proof -
  from sq have lM: "length M = n" by (simp add: is_square_def)
  with none have run: "gauss_jordan [0..<n] [] (zip M (eye n)) = None"
    by (simp add: linalg_inv_def)
  have lens: "\<forall>r\<in>set [] \<union> set (zip M (eye n)). len n r"
    using sq by (auto simp: is_square_def len_def in_set_zip)
  from gauss_jordan_None [OF run zip_eye_shape lens]
  obtain v where v: "length v = n" "v \<noteq> replicate n 0"
    and z: "\<forall>r\<in>set [] \<union> set (zip M (eye n)). dot (fst r) v = 0"
    by auto
  have "mat_vec M v = replicate n 0"
  proof (rule nth_equalityI)
    show "length (mat_vec M v) = length (replicate n (0::real))" using lM by simp
    fix i assume "i < length (mat_vec M v)"
    with lM have i: "i < n" by simp
    with lM have "(M ! i, eye n ! i) \<in> set (zip M (eye n))" by (auto simp: in_set_zip)
    with z have "dot (M ! i) v = 0" by auto
    with i lM show "mat_vec M v ! i = replicate n 0 ! i" by (simp add: mat_vec_nth)
  qed
  with v show ?thesis by (auto simp: singular_def)
qed

text \<open>The inversion fails on the singular matrices and on no other.\<close>

lemma linalg_inv_None_iff: "is_square n M \<Longrightarrow> linalg_inv M = None \<longleftrightarrow> singular n M"
  using linalg_inv_None linalg_inv_singular by blast

lemma mat_T_adjacency_matrix:
  "mat_T (adjacency_matrix G weight) = map (\<lambda>i. map (a_in G weight i) (nodes G)) (nodes G)"
proof (rule nth_equalityI)
  show "length (mat_T (adjacency_matrix G weight)) =
      length (map (\<lambda>i. map (a_in G weight i) (nodes G)) (nodes G))"
    by (simp add: mat_T_def adjacency_matrix_def)
  fix j assume "j < length (mat_T (adjacency_matrix G weight))"
  then have j: "j < length (nodes G)"
    by (simp add: mat_T_def adjacency_matrix_def)
  then show "mat_T (adjacency_matrix G weight) ! j =
      map (\<lambda>i. map (a_in G weight i) (nodes G)) (nodes G) ! j"
    by (simp add: mat_T_def adjacency_matrix_def a_in_def comp_def)
qed

lemma compress_map: "compress (map Q xs) (map f xs) = map f (filter Q xs)"
  by (induction xs) (simp_all add: compress_def)

lemma map2_same: "map2 h (map f xs) (map g xs) = map (\<lambda>x. h (f x) (g x)) xs"
  by (induction xs) simp_all

lemma trophic_levels_unfold:
  "trophic_levels G weight =
     (if \<not> directed G then Inl NetworkXNotImplemented
      else case linalg_inv (mat_sub (eye (length (nonbasal G weight))) (P_matrix G weight)) of
             None \<Rightarrow> Inl LinAlgError
           | Some n \<Rightarrow>
               assign_levels (map (\<lambda>row. sum_list row + 1) n)
                 (foldl (\<lambda>m node_id. m(node_id \<mapsto> 1)) Map.empty (zero_node_ids G))
                 (enumerate 0 (nonzero_node_ids G)))"
proof -
  let ?a = "mat_T (adjacency_matrix G weight)"
  let ?keep = "map (\<lambda>s. s \<noteq> 0) (map sum_list ?a)"
  have rowsum: "map sum_list ?a = map (k_in G weight) (nodes G)"
    by (simp add: mat_T_adjacency_matrix k_in_def comp_def)
  have keep: "?keep = map (\<lambda>i. k_in G weight i \<noteq> 0) (nodes G)"
    by (simp add: rowsum comp_def)
  have rows: "compress ?keep ?a = map (\<lambda>i. map (a_in G weight i) (nodes G)) (nonbasal G weight)"
    unfolding keep by (simp add: mat_T_adjacency_matrix compress_map nonbasal_def)
  have cols: "map (compress ?keep) (compress ?keep ?a) =
      map (\<lambda>i. map (a_in G weight i) (nonbasal G weight)) (nonbasal G weight)"
    unfolding rows unfolding keep by (simp add: compress_map nonbasal_def comp_def)
  have sums: "compress ?keep (map sum_list ?a) = map (k_in G weight) (nonbasal G weight)"
    unfolding keep unfolding rowsum by (simp add: compress_map nonbasal_def)
  have p: "map2 (\<lambda>row s. map (\<lambda>x. x / s) row) (map (compress ?keep) (compress ?keep ?a))
             (compress ?keep (map sum_list ?a)) = P_matrix G weight"
    unfolding cols sums by (simp add: map2_same P_matrix_def comp_def)
  have l: "length (P_matrix G weight) = length (nonbasal G weight)"
    by (simp add: P_matrix_def)
  show ?thesis
    unfolding trophic_levels_def Let_def p l ..
qed

lemma foldl_basal:
  "foldl (\<lambda>m node_id. m(node_id \<mapsto> (1::real))) m0 xs = (\<lambda>v. if v \<in> set xs then Some 1 else m0 v)"
  by (induction xs arbitrary: m0) (auto simp: fun_eq_iff)

lemma assign_levels_length:
  "assign_levels y levels (enumerate k xs) = Inr m \<Longrightarrow> xs \<noteq> [] \<Longrightarrow> k + length xs \<le> length y"
proof (induction xs arbitrary: k levels)
  case Nil
  then show ?case by simp
next
  case (Cons x xs)
  from Cons.prems(1) have k: "k < length y"
    and run: "assign_levels y (levels(x \<mapsto> y ! k)) (enumerate (Suc k) xs) = Inr m"
    by (simp_all split: if_splits)
  show ?case
  proof (cases "xs = []")
    case True
    with k show ?thesis by simp
  next
    case False
    with run have "Suc k + length xs \<le> length y" by (rule Cons.IH)
    then show ?thesis by simp
  qed
qed

lemma assign_levels_other:
  "assign_levels y levels (enumerate k xs) = Inr m \<Longrightarrow> v \<notin> set xs \<Longrightarrow> m v = levels v"
  by (induction xs arbitrary: k levels) (auto split: if_splits)

lemma assign_levels_nth:
  "assign_levels y levels (enumerate k xs) = Inr m \<Longrightarrow> distinct xs \<Longrightarrow> j < length xs \<Longrightarrow>
     m (xs ! j) = Some (y ! (k + j))"
proof (induction xs arbitrary: k levels j)
  case Nil
  then show ?case by simp
next
  case (Cons x xs)
  from Cons.prems(1) have k: "k < length y"
    and run: "assign_levels y (levels(x \<mapsto> y ! k)) (enumerate (Suc k) xs) = Inr m"
    by (simp_all split: if_splits)
  show ?case
  proof (cases j)
    case 0
    from Cons.prems(2) have "x \<notin> set xs" by simp
    with run have "m x = (levels(x \<mapsto> y ! k)) x" by (rule assign_levels_other)
    with 0 show ?thesis by simp
  next
    case (Suc j')
    with Cons.prems have "m (xs ! j') = Some (y ! (Suc k + j'))"
      by (intro Cons.IH [OF run]) simp_all
    with Suc show ?thesis by simp
  qed
qed

lemma assign_levels_Inr:
  "k + length xs \<le> length y \<Longrightarrow> \<exists>m. assign_levels y levels (enumerate k xs) = Inr m"
  by (induction xs arbitrary: k levels) simp_all

lemma assign_levels_Inl:
  "assign_levels y levels (enumerate k xs) = Inl e \<Longrightarrow> e = IndexError"
  by (induction xs arbitrary: k levels) (simp_all split: if_splits)

lemma a_in_no_in_edge: "in_degree G i = 0 \<Longrightarrow> a_in G weight i j = 0"
proof -
  assume "in_degree G i = 0"
  then have "filter (\<lambda>e. fst (snd e) = i) (edges G) = []"
    by (simp add: in_degree_def)
  then have "filter (\<lambda>e. fst e = j \<and> fst (snd e) = i) (edges G) = []"
    by (auto simp: filter_empty_conv)
  then show ?thesis by (simp add: a_in_def)
qed

lemma k_in_nonzero_in_degree: "k_in G weight i \<noteq> 0 \<Longrightarrow> in_degree G i \<noteq> 0"
proof (rule ccontr)
  assume k: "k_in G weight i \<noteq> 0" and "\<not> in_degree G i \<noteq> 0"
  then have "map (a_in G weight i) (nodes G) = map (\<lambda>j. 0) (nodes G)"
    by (simp add: a_in_no_in_edge)
  then have "k_in G weight i = 0"
    unfolding k_in_def by (simp only: sum_list_0)
  with k show False by simp
qed

lemma filter_stronger_eq:
  "\<forall>x\<in>set xs. Q x \<longrightarrow> R x \<Longrightarrow> length (filter R xs) \<le> length (filter Q xs) \<Longrightarrow>
     filter Q xs = filter R xs"
proof (induction xs)
  case Nil
  then show ?case by simp
next
  case (Cons x xs)
  have le: "length (filter Q xs) \<le> length (filter R xs)"
    using Cons.prems(1) by (induction xs) auto
  show ?case
  proof (cases "R x")
    case True
    show ?thesis
    proof (cases "Q x")
      case True
      with \<open>R x\<close> Cons show ?thesis by simp
    next
      case False
      with \<open>R x\<close> Cons.prems(2) le show ?thesis by simp
    qed
  next
    case False
    with Cons show ?thesis by auto
  qed
qed

lemma is_square_system: "is_square (length (nonbasal G weight))
    (mat_sub (eye (length (nonbasal G weight))) (P_matrix G weight))"
  by (auto simp: is_square_def mat_sub_def P_matrix_def eye_def in_set_zip)

text \<open>When the call succeeds, the nodes of nonzero in-degree are the non-basal nodes.\<close>

lemma trophic_levels_Inr:
  assumes "trophic_levels G weight = Inr levels"
  obtains N where "directed G"
    and "linalg_inv (mat_sub (eye (length (nonbasal G weight))) (P_matrix G weight)) = Some N"
    and "is_square (length (nonbasal G weight)) N"
    and "nonzero_node_ids G = nonbasal G weight"
    and "assign_levels (map (\<lambda>row. sum_list row + 1) N)
           (\<lambda>v. if v \<in> set (zero_node_ids G) then Some 1 else None)
           (enumerate 0 (nonbasal G weight)) = Inr levels"
proof -
  let ?n = "length (nonbasal G weight)"
  from assms have d: "directed G"
    by (simp add: trophic_levels_unfold split: if_splits)
  with assms obtain N where
    inv: "linalg_inv (mat_sub (eye ?n) (P_matrix G weight)) = Some N"
    and run: "assign_levels (map (\<lambda>row. sum_list row + 1) N)
           (\<lambda>v. if v \<in> set (zero_node_ids G) then Some 1 else None)
           (enumerate 0 (nonzero_node_ids G)) = Inr levels"
    by (auto simp: trophic_levels_unfold foldl_basal split: option.splits)
  from inv is_square_system have sq: "is_square ?n N" by (rule length_linalg_inv)
  then have lN: "length N = ?n" by (simp add: is_square_def)
  have "length (nonzero_node_ids G) \<le> ?n"
  proof (cases "nonzero_node_ids G = []")
    case True
    then show ?thesis by simp
  next
    case False
    with run have "0 + length (nonzero_node_ids G) \<le> length (map (\<lambda>row. sum_list row + 1) N)"
      by (rule assign_levels_length)
    with lN show ?thesis by simp
  qed
  then have "filter (\<lambda>i. k_in G weight i \<noteq> 0) (nodes G) =
      filter (\<lambda>node_id. in_degree G node_id \<noteq> 0) (nodes G)"
    by (intro filter_stronger_eq) (auto simp: k_in_nonzero_in_degree nonzero_node_ids_def nonbasal_def)
  then have eq: "nonzero_node_ids G = nonbasal G weight"
    by (simp add: nonzero_node_ids_def nonbasal_def)
  from d inv sq eq run show ?thesis by (intro that) simp_all
qed

section \<open>Properties of the level computation\<close>





lemma a_in_nonneg: "positive_weights G weight \<Longrightarrow> 0 \<le> a_in G weight i j"
  unfolding a_in_def by (rule sum_list_nonneg) (auto simp: positive_weights_def intro: less_imp_le)

lemma k_in_pos:
  assumes wf: "wf_graph G" and pos: "positive_weights G weight"
    and deg: "in_degree G v \<noteq> 0"
  shows "0 < k_in G weight v"
proof -
  from deg obtain e where e: "e \<in> set (edges G)" "fst (snd e) = v"
    by (auto simp: in_degree_def filter_empty_conv)
  with wf have src: "fst e \<in> set (nodes G)" by (simp add: wf_graph_def)
  let ?es = "filter (\<lambda>e'. fst e' = fst e \<and> fst (snd e') = v) (edges G)"
  from e have mem: "e \<in> set ?es" by simp
  have nonneg: "0 \<le> k_in G weight v"
    unfolding k_in_def by (rule sum_list_nonneg) (auto simp: a_in_nonneg [OF pos])
  have "k_in G weight v \<noteq> 0"
  proof
    assume "k_in G weight v = 0"
    then have "\<forall>x\<in>set (map (a_in G weight v) (nodes G)). x = 0"
      unfolding k_in_def
      by (subst (asm) sum_list_nonneg_eq_0_iff) (auto simp: a_in_nonneg [OF pos])
    with src have "a_in G weight v (fst e) = 0" by simp
    then have "\<forall>x\<in>set (map (\<lambda>e. edge_weight weight (snd (snd e))) ?es). x = 0"
      unfolding a_in_def
      using pos by (subst (asm) sum_list_nonneg_eq_0_iff) (auto simp: positive_weights_def intro: less_imp_le)
    with mem have "edge_weight weight (snd (snd e)) = 0" by auto
    moreover from pos e(1) have "0 < edge_weight weight (snd (snd e))"
      by (simp add: positive_weights_def)
    ultimately show False by simp
  qed
  with nonneg show ?thesis by simp
qed


text \<open>The levels of the non-basal nodes are the row sums of the inverse, plus 1.\<close>

lemma nonbasal_levels:
  assumes dist: "distinct (nodes G)" and ok: "trophic_levels G weight = Inr levels"
  obtains N where "linalg_inv (level_system G weight) = Some N"
    and "is_square (length (nonbasal G weight)) N"
    and "\<forall>k<length (nonbasal G weight). levels (nonbasal G weight ! k) = Some (sum_list (N ! k) + 1)"
proof -
  let ?n = "length (nonbasal G weight)"
  from ok obtain N where inv: "linalg_inv (level_system G weight) = Some N"
    and sqN: "is_square ?n N"
    and run: "assign_levels (map (\<lambda>row. sum_list row + 1) N)
           (\<lambda>v. if v \<in> set (zero_node_ids G) then Some 1 else None)
           (enumerate 0 (nonbasal G weight)) = Inr levels"
    unfolding level_system_def by (rule trophic_levels_Inr)
  from sqN have lN: "length N = ?n" by (simp add: is_square_def)
  from dist have dist': "distinct (nonbasal G weight)"
    by (simp add: nonbasal_def)
  have "\<forall>k<?n. levels (nonbasal G weight ! k) = Some (sum_list (N ! k) + 1)"
  proof (intro allI impI)
    fix k assume k: "k < ?n"
    with run dist'
    have "levels (nonbasal G weight ! k) = Some (map (\<lambda>row. sum_list row + 1) N ! (0 + k))"
      by (rule assign_levels_nth)
    with k lN show "levels (nonbasal G weight ! k) = Some (sum_list (N ! k) + 1)" by simp
  qed
  with inv sqN show ?thesis by (rule that)
qed

lemmas run_defs =
  trophic_levels_def Let_def mat_T_def adjacency_matrix_def edge_weight_def compress_def
  eye_def mat_sub_def linalg_inv_def row_scale_def row_sub_def eliminate_def
  zero_node_ids_def nonzero_node_ids_def in_degree_def enumerate_eq_zip upt_rec

lemma chain_graph_levels:
  "trophic_levels chain_graph ''weight'' = Inr [''a'' \<mapsto> 1, ''b'' \<mapsto> 2, ''c'' \<mapsto> 3]"
  by (simp add: chain_graph_def run_defs)

lemma simple_graph_levels:
  "trophic_levels simple_graph ''weight'' = Inr [1 \<mapsto> 1, 0 \<mapsto> 2]"
  by (simp add: simple_graph_def run_defs)

lemma edge01_graph_levels:
  "trophic_levels edge01_graph ''weight'' = Inr [0 \<mapsto> 1, 1 \<mapsto> 2]"
  by (simp add: edge01_graph_def run_defs)

lemma complex_graph_levels:
  "trophic_levels complex_graph ''weight'' = Inr [0 \<mapsto> 1, 1 \<mapsto> 2, 2 \<mapsto> 5 / 2, 3 \<mapsto> 13 / 4]"
  by (simp add: complex_graph_def run_defs)

lemma cannibal_graph_levels:
  "trophic_levels cannibal_graph ''weight'' = Inr [0 \<mapsto> 1, 1 \<mapsto> 3]"
  by (simp add: cannibal_graph_def run_defs)


lemma wf_graphs:
  "wf_graph chain_graph" "wf_graph complex_graph" "wf_graph cannibal_graph"
  "wf_graph identity_graph" "wf_graph isolated_graph"
  by (simp_all add: wf_graph_def chain_graph_def complex_graph_def cannibal_graph_def
      identity_graph_def isolated_graph_def)

lemma assign_levels_member:
  "assign_levels y levels (enumerate k xs) = Inr m \<Longrightarrow> v \<in> set xs \<Longrightarrow> \<exists>s. m v = Some s"
proof (induction xs arbitrary: k levels)
  case Nil
  then show ?case by simp
next
  case (Cons x xs)
  from Cons.prems(1) have
    run: "assign_levels y (levels(x \<mapsto> y ! k)) (enumerate (Suc k) xs) = Inr m"
    by (simp split: if_splits)
  show ?case
  proof (cases "v \<in> set xs")
    case True
    with run show ?thesis by (rule Cons.IH)
  next
    case False
    with Cons.prems(2) have "v = x" by simp
    moreover from run False have "m v = (levels(x \<mapsto> y ! k)) v" by (rule assign_levels_other)
    ultimately show ?thesis by simp
  qed
qed

lemma trophic_levels_dom:
  assumes "trophic_levels G weight = Inr levels"
  shows "dom levels = set (nodes G)"
proof -
  from assms obtain N where eq: "nonzero_node_ids G = nonbasal G weight"
    and run: "assign_levels (map (\<lambda>row. sum_list row + 1) N)
           (\<lambda>v. if v \<in> set (zero_node_ids G) then Some 1 else None)
           (enumerate 0 (nonbasal G weight)) = Inr levels"
    by (rule trophic_levels_Inr)
  have split: "set (nodes G) = set (zero_node_ids G) \<union> set (nonbasal G weight)"
    unfolding eq [symmetric] by (auto simp: zero_node_ids_def nonzero_node_ids_def)
  show ?thesis
  proof (intro set_eqI iffI)
    fix v assume "v \<in> dom levels"
    then obtain s where s: "levels v = Some s" by auto
    show "v \<in> set (nodes G)"
    proof (cases "v \<in> set (nonbasal G weight)")
      case True
      with split show ?thesis by simp
    next
      case False
      with run have "levels v = (if v \<in> set (zero_node_ids G) then Some 1 else None)"
        by (rule assign_levels_other)
      with s split show ?thesis by (simp split: if_splits)
    qed
  next
    fix v assume v: "v \<in> set (nodes G)"
    show "v \<in> dom levels"
    proof (cases "v \<in> set (nonbasal G weight)")
      case True
      with run have "\<exists>s. levels v = Some s" by (rule assign_levels_member)
      then show ?thesis by auto
    next
      case False
      with run have "levels v = (if v \<in> set (zero_node_ids G) then Some 1 else None)"
        by (rule assign_levels_other)
      with v False split show ?thesis by auto
    qed
  qed
qed

lemma edge_differences_covered:
  "\<forall>e\<in>set es. fst e \<in> dom levels \<and> fst (snd e) \<in> dom levels \<Longrightarrow>
     edge_differences levels es =
       Inr (map (\<lambda>e. ((fst e, fst (snd e)), the (levels (fst (snd e))) - the (levels (fst e)))) es)"
proof (induction es)
  case Nil
  then show ?case by simp
next
  case (Cons e es)
  obtain j i d where e: "e = (j, i, d)" by (cases e)
  from Cons.prems e obtain si sj where "levels i = Some si" "levels j = Some sj" by auto
  with Cons e show ?case by simp
qed

lemma edge_differences_keys:
  "edge_differences levels es = Inr difference \<Longrightarrow>
     map fst difference = map (\<lambda>e. (fst e, fst (snd e))) es"
proof (induction es arbitrary: difference)
  case Nil
  then show ?case by simp
next
  case (Cons e es)
  obtain j i d where e: "e = (j, i, d)" by (cases e)
  from Cons.prems e obtain rest where "edge_differences levels es = Inr rest"
    and "map fst difference = (j, i) # map fst rest"
    by (auto split: option.splits sum.splits)
  with Cons.IH e show ?case by simp
qed

lemma complex_graph_differences:
  "trophic_differences complex_graph ''weight'' =
     Inr [((0, 1), 1), ((0, 2), 3 / 2), ((1, 2), 1 / 2), ((1, 3), 5 / 4), ((2, 3), 3 / 4)]"
  by (simp add: trophic_differences_def complex_graph_levels computeDifferences_def)
    (simp add: complex_graph_def)

section \<open>The claims\<close>

subsection \<open>Levels of the non-basal nodes\<close>



subsection \<open>Levels of the basal nodes\<close>

text \<open>
  C2. Whenever \<^verbatim>\<open>trophic_levels\<close> returns levels, every node without an incoming edge
  has level exactly 1; so has every node whose in-degree weight sum is zero.
\<close>

theorem basal_level_one:
  assumes ok: "trophic_levels G weight = Inr levels"
    and v: "v \<in> set (nodes G)"
    and basal: "in_degree G v = 0 \<or> k_in G weight v = 0"
  shows "levels v = Some 1"
proof -
  from ok obtain N where eq: "nonzero_node_ids G = nonbasal G weight"
    and run: "assign_levels (map (\<lambda>row. sum_list row + 1) N)
           (\<lambda>v. if v \<in> set (zero_node_ids G) then Some 1 else None)
           (enumerate 0 (nonbasal G weight)) = Inr levels"
    by (rule trophic_levels_Inr)
  from basal have nb: "v \<notin> set (nonbasal G weight)"
  proof
    assume "in_degree G v = 0"
    then show ?thesis unfolding eq [symmetric] by (simp add: nonzero_node_ids_def)
  next
    assume "k_in G weight v = 0"
    then show ?thesis by (simp add: nonbasal_def)
  qed
  from run nb have l: "levels v = (if v \<in> set (zero_node_ids G) then Some 1 else None)"
    by (rule assign_levels_other)
  from nb v have "v \<in> set (zero_node_ids G)"
    unfolding eq [symmetric] by (simp add: zero_node_ids_def nonzero_node_ids_def)
  with l show ?thesis by simp
qed

theorem basal_level_one_witness:
  "trophic_levels chain_graph ''weight'' = Inr [''a'' \<mapsto> 1, ''b'' \<mapsto> 2, ''c'' \<mapsto> 3] \<and>
   ''a'' \<in> set (nodes chain_graph) \<and> in_degree chain_graph ''a'' = 0 \<and>
   [''a'' \<mapsto> 1, ''b'' \<mapsto> 2, ''c'' \<mapsto> (3::real)] ''a'' = Some 1"
proof -
  have v: "''a'' \<in> set (nodes chain_graph)" by (simp add: chain_graph_def)
  have d: "in_degree chain_graph ''a'' = 0" by (simp add: chain_graph_def in_degree_def)
  from d have b: "in_degree chain_graph ''a'' = 0 \<or> k_in chain_graph ''weight'' ''a'' = 0" ..
  from basal_level_one [OF chain_graph_levels v b] chain_graph_levels v d show ?thesis by blast
qed

subsection \<open>Singular systems\<close>




subsection \<open>Undirected graphs\<close>

text \<open>
  C4. On an undirected graph \<^verbatim>\<open>trophic_levels\<close> fails with NetworkXNotImplemented, the
  specification's DomainTypeError, whatever the nodes, the edges and the weights are:
  nothing of the graph but its direction flag is read.
\<close>

theorem undirected_rejected:
  "\<not> directed G \<Longrightarrow> trophic_levels G weight = Inl NetworkXNotImplemented"
  by (simp add: trophic_levels_def)

theorem undirected_rejected_witness:
  "\<not> directed undirected_chain \<and>
   trophic_levels undirected_chain ''weight'' = Inl NetworkXNotImplemented"
proof -
  have h: "\<not> directed undirected_chain"
    by (simp add: undirected_chain_def chain_graph_def)
  from h undirected_rejected [OF h] show ?thesis by simp
qed

subsection \<open>Graphs without non-basal nodes\<close>



subsection \<open>The examples of the tests\<close>

text \<open>
  C6, as amended. The two-node graph of \<^verbatim>\<open>test_trophic_levels_simple\<close> has the single
  edge from node 1 to node 0, and its levels are \<open>{0: 2, 1: 1}\<close>; the two-node graph with
  the single edge from node 0 to node 1 has the levels \<open>{0: 1, 1: 2}\<close>. In both the target
  of the edge is one level above its source.
\<close>

theorem edge_1_to_0_levels:
  "trophic_levels simple_graph ''weight'' = Inr [0 \<mapsto> 2, 1 \<mapsto> 1] \<and>
   trophic_levels edge01_graph ''weight'' = Inr [0 \<mapsto> 1, 1 \<mapsto> 2]"
proof -
  have "[1 \<mapsto> 1, 0 \<mapsto> 2] = [0 \<mapsto> 2, (1::nat) \<mapsto> (1::real)]"
    by (simp add: fun_upd_twist)
  then show ?thesis
    by (simp add: simple_graph_levels edge01_graph_levels)
qed

text \<open>
  C6 as stated fails: for the single edge from node 0 to node 1 the result is not
  \<open>{0: 2, 1: 1}\<close>.
\<close>

theorem edge_0_to_1_counterexample:
  "trophic_levels edge01_graph ''weight'' \<noteq> Inr [0 \<mapsto> 2, 1 \<mapsto> 1]"
proof
  assume "trophic_levels edge01_graph ''weight'' = Inr [0 \<mapsto> 2, 1 \<mapsto> 1]"
  then have "[0 \<mapsto> 1, 1 \<mapsto> 2] = [0 \<mapsto> 2, (1::nat) \<mapsto> (1::real)]"
    by (simp add: edge01_graph_levels)
  then have "[0 \<mapsto> 1, 1 \<mapsto> 2] (0::nat) = [0 \<mapsto> 2, (1::nat) \<mapsto> (1::real)] 0"
    by (rule arg_cong)
  then show False by simp
qed

text \<open>
  C7. For the chain \<open>a \<rightarrow> b \<rightarrow> c\<close> with unit weights the levels are exactly
  \<open>{a: 1, b: 2, c: 3}\<close>.
\<close>

theorem chain_levels:
  "trophic_levels chain_graph ''weight'' = Inr [''a'' \<mapsto> 1, ''b'' \<mapsto> 2, ''c'' \<mapsto> 3]"
  by (simp add: chain_graph_def run_defs)

text \<open>
  C8. For the graph with the edges \<open>0 \<rightarrow> 1\<close>, \<open>0 \<rightarrow> 2\<close>, \<open>1 \<rightarrow> 2\<close>, \<open>1 \<rightarrow> 3\<close>,
  \<open>2 \<rightarrow> 3\<close> of unit weight the levels of the nodes 0 to 3 are 1, 2, 5/2 and 13/4 in
  exact arithmetic, and so within \<open>1e-7\<close> of 1, 2, 2.5 and 3.25.
\<close>

theorem complex_levels:
  "\<exists>levels l0 l1 l2 l3.
     trophic_levels complex_graph ''weight'' = Inr levels \<and>
     levels = [0 \<mapsto> 1, 1 \<mapsto> 2, 2 \<mapsto> 5 / 2, 3 \<mapsto> 13 / 4] \<and>
     levels 0 = Some l0 \<and> levels 1 = Some l1 \<and> levels 2 = Some l2 \<and> levels 3 = Some l3 \<and>
     within_tolerance l0 1 \<and> within_tolerance l1 2 \<and> within_tolerance l2 2.5 \<and>
     within_tolerance l3 3.25"
proof -
  have run: "trophic_levels complex_graph ''weight'' =
      Inr [0 \<mapsto> 1, 1 \<mapsto> 2, 2 \<mapsto> 5 / 2, 3 \<mapsto> 13 / 4]"
    by (simp add: complex_graph_def run_defs)
  show ?thesis
    by (rule exI [of _ "[0 \<mapsto> 1, 1 \<mapsto> 2, 2 \<mapsto> 5 / 2, 3 \<mapsto> 13 / 4]"],
        rule exI [of _ 1], rule exI [of _ 2], rule exI [of _ "5 / 2"], rule exI [of _ "13 / 4"])
      (simp add: run within_tolerance_def)
qed

subsection \<open>Differences and coherence\<close>

text \<open>
  C9. Whenever \<^verbatim>\<open>trophic_levels\<close> returns levels for a simple directed graph, the
  differences are computed without error, and the mapping has exactly one entry for each
  edge \<open>(j, i)\<close>, in edge order, whose value is \<open>levels[i] - levels[j]\<close>; the entry of a
  self-loop is kept, with difference 0.
\<close>

theorem trophic_differences_edges:
  assumes wf: "wf_graph G" and ok: "trophic_levels G weight = Inr levels"
  shows "\<exists>difference. trophic_differences G weight = Inr difference \<and>
           map fst difference = map (\<lambda>e. (fst e, fst (snd e))) (edges G) \<and>
           distinct (map fst difference) \<and>
           (\<forall>e\<in>set (edges G). \<exists>si sj.
               levels (fst (snd e)) = Some si \<and> levels (fst e) = Some sj \<and>
               map_of difference (fst e, fst (snd e)) = Some (si - sj)) \<and>
           (\<forall>e\<in>set (edges G). fst e = fst (snd e) \<longrightarrow>
               map_of difference (fst e, fst (snd e)) = Some 0)"
proof -
  let ?key = "\<lambda>e. (fst e, fst (snd e))"
  let ?entry = "\<lambda>e. (?key e, the (levels (fst (snd e))) - the (levels (fst e)))"
  let ?d = "map ?entry (edges G)"
  from ok have dom: "dom levels = set (nodes G)" by (rule trophic_levels_dom)
  with wf have cov: "\<forall>e\<in>set (edges G). fst e \<in> dom levels \<and> fst (snd e) \<in> dom levels"
    by (simp add: wf_graph_def)
  then have "edge_differences levels (edges G) = Inr ?d" by (rule edge_differences_covered)
  with ok have run: "trophic_differences G weight = Inr ?d"
    by (simp add: trophic_differences_def computeDifferences_def)
  have keys: "map fst ?d = map ?key (edges G)" by (simp add: comp_def)
  from wf have dist: "distinct (map fst ?d)" unfolding keys by (simp add: wf_graph_def)
  have look: "map_of ?d (?key e) = Some (the (levels (fst (snd e))) - the (levels (fst e)))"
    if "e \<in> set (edges G)" for e
    using dist that by (intro map_of_is_SomeI) auto
  have val: "\<exists>si sj. levels (fst (snd e)) = Some si \<and> levels (fst e) = Some sj \<and>
      map_of ?d (?key e) = Some (si - sj)" if e: "e \<in> set (edges G)" for e
  proof -
    from cov e obtain si sj where "levels (fst (snd e)) = Some si" "levels (fst e) = Some sj"
      by auto
    with look [OF e] show ?thesis by simp
  qed
  have loop: "map_of ?d (?key e) = Some 0" if e: "e \<in> set (edges G)" "fst e = fst (snd e)" for e
    using look [OF e(1)] e(2) by simp
  from run keys dist val loop show ?thesis by blast
qed

text \<open>The theorem at a graph with a self-loop at node 1.\<close>

theorem trophic_differences_edges_witness:
  "wf_graph cannibal_graph \<and>
   trophic_levels cannibal_graph ''weight'' = Inr [0 \<mapsto> 1, 1 \<mapsto> 3] \<and>
   trophic_differences cannibal_graph ''weight'' = Inr [((0, 1), 2), ((1, 1), 0)] \<and>
   (\<exists>difference. trophic_differences cannibal_graph ''weight'' = Inr difference \<and>
      map fst difference = map (\<lambda>e. (fst e, fst (snd e))) (edges cannibal_graph) \<and>
      map_of difference (1, 1) = Some 0)"
proof -
  have d: "trophic_differences cannibal_graph ''weight'' = Inr [((0, 1), 2), ((1, 1), 0)]"
    by (simp add: trophic_differences_def cannibal_graph_levels computeDifferences_def)
      (simp add: cannibal_graph_def)
  have e: "(1, 1, [(''weight'', 1)]) \<in> set (edges cannibal_graph)"
    by (simp add: cannibal_graph_def)
  from trophic_differences_edges [OF wf_graphs(3) cannibal_graph_levels]
  obtain difference where "trophic_differences cannibal_graph ''weight'' = Inr difference"
    and "map fst difference = map (\<lambda>e. (fst e, fst (snd e))) (edges cannibal_graph)"
    and "\<forall>e\<in>set (edges cannibal_graph). fst e = fst (snd e) \<longrightarrow>
           map_of difference (fst e, fst (snd e)) = Some 0"
    by blast
  with e have "\<exists>difference. trophic_differences cannibal_graph ''weight'' = Inr difference \<and>
      map fst difference = map (\<lambda>e. (fst e, fst (snd e))) (edges cannibal_graph) \<and>
      map_of difference (1, 1) = Some 0"
    by fastforce
  with wf_graphs(3) cannibal_graph_levels d show ?thesis by blast
qed

text \<open>
  C10. On a graph without self-loop edges the coherence that excludes cannibalism is the
  coherence that includes it, and when the differences are computed it is the population
  standard deviation of their values.
\<close>

theorem coherence_without_selfloops:
  assumes "selfloop_edges G = []"
  shows "trophic_coherence G weight False = trophic_coherence G weight True \<and>
         (\<forall>difference. trophic_differences G weight = Inr difference \<longrightarrow>
            trophic_coherence G weight False = Inr (pstd (map snd difference)))"
proof -
  have keep: "filter (\<lambda>entry. fst (fst entry) \<noteq> snd (fst entry)) difference = difference"
    if "edge_differences levels (edges G) = Inr difference" for levels difference
  proof -
    from that have "map fst difference = map (\<lambda>e. (fst e, fst (snd e))) (edges G)"
      by (rule edge_differences_keys)
    then have keys: "fst ` set difference = (\<lambda>e. (fst e, fst (snd e))) ` set (edges G)"
      by (metis list.set_map)
    from assms have noloop: "\<forall>e\<in>set (edges G). fst e \<noteq> fst (snd e)"
      by (simp add: selfloop_edges_def filter_empty_conv)
    have "fst (fst entry) \<noteq> snd (fst entry)" if "entry \<in> set difference" for entry
    proof -
      from that have "fst entry \<in> fst ` set difference" by (rule imageI)
      with keys obtain e where "e \<in> set (edges G)" "fst entry = (fst e, fst (snd e))"
        by auto
      with noloop show ?thesis by simp
    qed
    then show ?thesis by simp
  qed
  have same: "computeCoherence G levels False = computeCoherence G levels True" for levels
    by (cases "edge_differences levels (edges G)")
      (simp_all add: computeCoherence_def computeDifferences_def keep)
  have std: "trophic_coherence G weight False = Inr (pstd (map snd difference))"
    if "trophic_differences G weight = Inr difference" for difference
    using that
    by (cases "trophic_levels G weight")
      (simp_all add: trophic_coherence_def trophic_differences_def computeCoherence_def
        computeDifferences_def keep)
  have "trophic_coherence G weight False = trophic_coherence G weight True"
    by (cases "trophic_levels G weight") (simp_all add: trophic_coherence_def same)
  with std show ?thesis by blast
qed

text \<open>
  The theorem at the second graph of \<^verbatim>\<open>test_trophic_coherence_no_cannibalism\<close>, whose
  differences are 1, 3/2, 1/2, 5/4 and 3/4.
\<close>

theorem coherence_without_selfloops_witness:
  "selfloop_edges complex_graph = [] \<and>
   trophic_coherence complex_graph ''weight'' False = trophic_coherence complex_graph ''weight'' True \<and>
   trophic_coherence complex_graph ''weight'' False = Inr (pstd [1, 3 / 2, 1 / 2, 5 / 4, 3 / 4]) \<and>
   pstd [1, 3 / 2, 1 / 2, 5 / 4, 3 / 4] = Some (sqrt (1 / 8))"
proof -
  have h: "selfloop_edges complex_graph = []"
    by (simp add: selfloop_edges_def complex_graph_def)
  have s: "pstd [1, 3 / 2, 1 / 2, 5 / 4, 3 / 4] = Some (sqrt (1 / 8))"
    by (simp add: pstd_def mean_def power2_eq_square)
  from coherence_without_selfloops [OF h, of "''weight''"]
  have a: "trophic_coherence complex_graph ''weight'' False =
      trophic_coherence complex_graph ''weight'' True"
    and b: "\<forall>difference. trophic_differences complex_graph ''weight'' = Inr difference \<longrightarrow>
      trophic_coherence complex_graph ''weight'' False = Inr (pstd (map snd difference))"
    by blast+
  from b complex_graph_differences
  have "trophic_coherence complex_graph ''weight'' False =
      Inr (pstd (map snd [((0::nat, 1::nat), 1), ((0, 2), 3 / 2), ((1, 2), 1 / 2), ((1, 3), 5 / 4),
        ((2, 3), 3 / 4)]))"
    by blast
  then have c: "trophic_coherence complex_graph ''weight'' False =
      Inr (pstd [1, 3 / 2, 1 / 2, 5 / 4, 3 / 4])"
    by simp
  show ?thesis by (intro conjI) (rule h a c s)+
qed

section \<open>Further properties of the level computation\<close>

lemma filter_stronger_less:
  "\<forall>x\<in>set xs. Q x \<longrightarrow> R x \<Longrightarrow>
     length (filter Q xs) < length (filter R xs) \<longleftrightarrow> (\<exists>x\<in>set xs. R x \<and> \<not> Q x)"
proof (induction xs)
  case Nil
  then show ?case by simp
next
  case (Cons x xs)
  have le: "length (filter Q xs) \<le> length (filter R xs)"
    using Cons.prems by (induction xs) auto
  from Cons have IH: "length (filter Q xs) < length (filter R xs) \<longleftrightarrow> (\<exists>x\<in>set xs. R x \<and> \<not> Q x)"
    by simp
  show ?case
  proof (cases "R x")
    case True
    show ?thesis
    proof (cases "Q x")
      case True
      with \<open>R x\<close> IH show ?thesis by simp
    next
      case False
      with \<open>R x\<close> le show ?thesis by auto
    qed
  next
    case False
    with Cons.prems have "\<not> Q x" by auto
    with False IH show ?thesis by simp
  qed
qed

lemma assign_levels_IndexError:
  "assign_levels y levels (enumerate k xs) = Inl IndexError \<longleftrightarrow> length y < k + length xs \<and> xs \<noteq> []"
proof
  assume l: "assign_levels y levels (enumerate k xs) = Inl IndexError"
  show "length y < k + length xs \<and> xs \<noteq> []"
  proof (rule ccontr)
    assume "\<not> (length y < k + length xs \<and> xs \<noteq> [])"
    then consider "xs = []" | "k + length xs \<le> length y" by fastforce
    then show False
    proof cases
      case 1
      with l show False by simp
    next
      case 2
      then obtain m where "assign_levels y levels (enumerate k xs) = Inr m"
        using assign_levels_Inr by blast
      with l show False by simp
    qed
  qed
next
  assume r: "length y < k + length xs \<and> xs \<noteq> []"
  show "assign_levels y levels (enumerate k xs) = Inl IndexError"
  proof (cases "assign_levels y levels (enumerate k xs)")
    case (Inl e)
    then show ?thesis by (simp add: assign_levels_Inl)
  next
    case (Inr m)
    with r have "k + length xs \<le> length y" by (intro assign_levels_length) simp_all
    with r show ?thesis by simp
  qed
qed

text \<open>
  The call fails in exactly three ways: on an undirected graph with
  NetworkXNotImplemented; on a directed graph whose system \<open>I - P\<close> is singular with
  LinAlgError; and, the system being invertible, with IndexError when some node has an
  incoming edge but a zero in-degree weight sum, since the rows of \<open>P\<close> are chosen by the
  weight sums and the nodes that receive the computed levels by \<^verbatim>\<open>G.in_degree\<close>.
\<close>

theorem trophic_levels_failures:
  "trophic_levels G weight = Inl e \<longleftrightarrow>
     e = NetworkXNotImplemented \<and> \<not> directed G \<or>
     e = LinAlgError \<and> directed G \<and>
       singular (length (nonbasal G weight)) (level_system G weight) \<or>
     e = IndexError \<and> directed G \<and>
       \<not> singular (length (nonbasal G weight)) (level_system G weight) \<and>
       (\<exists>v\<in>set (nodes G). in_degree G v \<noteq> 0 \<and> k_in G weight v = 0)"
proof (cases "directed G")
  case False
  then show ?thesis by (auto simp: trophic_levels_def)
next
  case True
  let ?n = "length (nonbasal G weight)"
  have sq: "is_square ?n (level_system G weight)"
    unfolding level_system_def by (rule is_square_system)
  show ?thesis
  proof (cases "linalg_inv (level_system G weight)")
    case None
    with sq have "singular ?n (level_system G weight)" by (simp add: linalg_inv_None_iff)
    with True None show ?thesis
      by (auto simp: trophic_levels_unfold level_system_def)
  next
    case (Some N)
    with sq have ns: "\<not> singular ?n (level_system G weight)"
      using linalg_inv_None_iff by fastforce
    from Some sq have "is_square ?n N" by (rule length_linalg_inv)
    then have lN: "length N = ?n" by (simp add: is_square_def)
    have "length (nonbasal G weight) < length (nonzero_node_ids G) \<longleftrightarrow>
        (\<exists>v\<in>set (nodes G). in_degree G v \<noteq> 0 \<and> \<not> k_in G weight v \<noteq> 0)"
      unfolding nonbasal_def nonzero_node_ids_def
      by (rule filter_stronger_less) (simp add: k_in_nonzero_in_degree)
    moreover have "length (nonbasal G weight) < length (nonzero_node_ids G) \<Longrightarrow>
        nonzero_node_ids G \<noteq> []"
      by auto
    ultimately have idx: "assign_levels (map (\<lambda>row. sum_list row + 1) N)
          (foldl (\<lambda>m node_id. m(node_id \<mapsto> 1)) Map.empty (zero_node_ids G))
          (enumerate 0 (nonzero_node_ids G)) = Inl IndexError \<longleftrightarrow>
        (\<exists>v\<in>set (nodes G). in_degree G v \<noteq> 0 \<and> k_in G weight v = 0)"
      by (auto simp: assign_levels_IndexError lN)
    have run: "trophic_levels G weight = assign_levels (map (\<lambda>row. sum_list row + 1) N)
          (foldl (\<lambda>m node_id. m(node_id \<mapsto> 1)) Map.empty (zero_node_ids G))
          (enumerate 0 (nonzero_node_ids G))"
      using True Some by (simp add: trophic_levels_unfold level_system_def)
    show ?thesis
    proof
      assume "trophic_levels G weight = Inl e"
      with run have a: "assign_levels (map (\<lambda>row. sum_list row + 1) N)
          (foldl (\<lambda>m node_id. m(node_id \<mapsto> 1)) Map.empty (zero_node_ids G))
          (enumerate 0 (nonzero_node_ids G)) = Inl e"
        by simp
      then have "e = IndexError" by (rule assign_levels_Inl)
      with a idx True ns show "e = NetworkXNotImplemented \<and> \<not> directed G \<or>
          e = LinAlgError \<and> directed G \<and> singular ?n (level_system G weight) \<or>
          e = IndexError \<and> directed G \<and> \<not> singular ?n (level_system G weight) \<and>
          (\<exists>v\<in>set (nodes G). in_degree G v \<noteq> 0 \<and> k_in G weight v = 0)"
        by simp
    next
      assume "e = NetworkXNotImplemented \<and> \<not> directed G \<or>
          e = LinAlgError \<and> directed G \<and> singular ?n (level_system G weight) \<or>
          e = IndexError \<and> directed G \<and> \<not> singular ?n (level_system G weight) \<and>
          (\<exists>v\<in>set (nodes G). in_degree G v \<noteq> 0 \<and> k_in G weight v = 0)"
      with True ns have "e = IndexError"
        and "\<exists>v\<in>set (nodes G). in_degree G v \<noteq> 0 \<and> k_in G weight v = 0"
        by auto
      with run idx show "trophic_levels G weight = Inl e" by simp
    qed
  qed
qed

text \<open>
  An edge of weight 0 is enough for the IndexError: the target has an incoming edge
  and a zero weight sum.
\<close>

theorem zero_weight_edge_fails:
  "in_degree zero_weight_graph 1 = 1 \<and> k_in zero_weight_graph ''weight'' 1 = 0 \<and>
   trophic_levels zero_weight_graph ''weight'' = Inl IndexError"
  by (simp add: zero_weight_graph_def run_defs k_in_def a_in_def)

text \<open>
  With positive weights on a simple directed graph the call fails only when the
  system is singular, and then with LinAlgError.
\<close>

theorem positive_weights_failure:
  assumes "directed G" and "wf_graph G" and "positive_weights G weight"
    and "trophic_levels G weight = Inl e"
  shows "e = LinAlgError \<and> singular (length (nonbasal G weight)) (level_system G weight)"
proof -
  have "k_in G weight v \<noteq> 0" if "v \<in> set (nodes G)" "in_degree G v \<noteq> 0" for v
    using k_in_pos [OF assms(2) assms(3) that(2)] by simp
  with assms(1) assms(4) show ?thesis
    by (auto simp: trophic_levels_failures)
qed

lemma dot_map2_minus:
  "length a = length b \<Longrightarrow> length b = length v \<Longrightarrow> dot (map2 (-) a b) v = dot a v - dot b v"
  using dot_sub [of a b v 1] by simp

text \<open>
  The levels returned satisfy the recurrence of the docstring: a node whose in-degree
  weight sum \<open>k_in\<close> is zero has level 1, and every other node \<open>i\<close> has level
  \<open>1 + (1 / k_in i) * \<Sum>j. a i j * s j\<close>, the sum over all nodes \<open>j\<close>.
\<close>

theorem levels_satisfy_recurrence:
  assumes dist: "distinct (nodes G)" and ok: "trophic_levels G weight = Inr levels"
  shows "\<exists>s. (\<forall>v\<in>set (nodes G). levels v = Some (s v)) \<and>
           (\<forall>i\<in>set (nodes G).
              s i = (if k_in G weight i = 0 then 1
                     else 1 + sum_list (map (\<lambda>j. a_in G weight i j * s j) (nodes G)) /
                              k_in G weight i))"
proof -
  let ?nb = "nonbasal G weight"
  let ?n = "length ?nb"
  define s where "s v = the (levels v)" for v
  from ok have dom: "dom levels = set (nodes G)" by (rule trophic_levels_dom)
  have cover: "levels v = Some (s v)" if "v \<in> set (nodes G)" for v
  proof -
    from that dom have "v \<in> dom levels" by simp
    then obtain x where "levels v = Some x" by auto
    then show ?thesis by (simp add: s_def)
  qed
  from dist ok obtain N where inv: "linalg_inv (level_system G weight) = Some N"
    and sqN: "is_square ?n N"
    and levN: "\<forall>k<?n. levels (?nb ! k) = Some (sum_list (N ! k) + 1)"
    by (rule nonbasal_levels)
  define y where "y = mat_vec N (replicate ?n 1)"
  from sqN have ly: "length y = ?n" by (simp add: y_def is_square_def)
  have sqM: "is_square ?n (level_system G weight)"
    unfolding level_system_def by (rule is_square_system)
  have sol: "mat_vec (level_system G weight) y = replicate ?n 1"
    unfolding y_def using inv sqM by (rule linalg_inv_right) simp
  from levN sqN have lev: "\<forall>k<?n. levels (?nb ! k) = Some (y ! k + 1)"
    by (simp add: y_def mat_vec_ones is_square_def)
  have snb: "s (?nb ! k) = y ! k + 1" if "k < ?n" for k
    using lev that by (simp add: s_def)
  have sbasal: "s v = 1" if v: "v \<in> set (nodes G)" "k_in G weight v = 0" for v
  proof -
    from ok obtain N' where eq: "nonzero_node_ids G = ?nb"
      and run: "assign_levels (map (\<lambda>row. sum_list row + 1) N')
             (\<lambda>v. if v \<in> set (zero_node_ids G) then Some 1 else None)
             (enumerate 0 ?nb) = Inr levels"
      by (rule trophic_levels_Inr)
    from v(2) have out: "v \<notin> set ?nb" by (simp add: nonbasal_def)
    with v(1) have "v \<in> set (zero_node_ids G)"
      unfolding eq [symmetric] by (simp add: zero_node_ids_def nonzero_node_ids_def)
    moreover from run out
    have "levels v = (if v \<in> set (zero_node_ids G) then Some 1 else None)"
      by (rule assign_levels_other)
    ultimately show ?thesis by (simp add: s_def)
  qed
  have rec: "s i = 1 + sum_list (map (\<lambda>j. a_in G weight i j * s j) (nodes G)) / k_in G weight i"
    if i: "i \<in> set (nodes G)" and k: "k_in G weight i \<noteq> 0" for i
  proof -
    let ?a = "a_in G weight i"
    let ?k = "k_in G weight i"
    from i k have "i \<in> set ?nb" by (simp add: nonbasal_def)
    then obtain k0 where k0: "k0 < ?n" "?nb ! k0 = i" by (auto simp: in_set_conv_nth)
    have Prow: "P_matrix G weight ! k0 = map (\<lambda>j. ?a j / ?k) ?nb"
      using k0 by (simp add: P_matrix_def)
    have row: "level_system G weight ! k0 = map2 (-) (eye ?n ! k0) (P_matrix G weight ! k0)"
      using k0 by (simp add: level_system_def mat_sub_def P_matrix_def)
    have len: "length (level_system G weight) = ?n"
      by (simp add: level_system_def mat_sub_def P_matrix_def)
    from sol have "mat_vec (level_system G weight) y ! k0 = replicate ?n (1::real) ! k0" by simp
    with k0 len have "dot (level_system G weight ! k0) y = 1" by (simp add: mat_vec_nth)
    then have "dot (eye ?n ! k0) y - dot (P_matrix G weight ! k0) y = 1"
      using k0 ly by (simp add: row dot_map2_minus Prow)
    then have yk: "y ! k0 = 1 + dot (P_matrix G weight ! k0) y"
      using k0 ly by (simp add: dot_eye)
    have dotP: "dot (P_matrix G weight ! k0) y = (\<Sum>m<?n. ?a (?nb ! m) * y ! m) / ?k"
      using ly by (simp add: Prow dot_nth sum_divide_distrib)
    have "sum_list (map (\<lambda>j. ?a j * s j) (nodes G)) =
        sum_list (map (\<lambda>j. ?a j + (if k_in G weight j \<noteq> 0 then ?a j * (s j - 1) else 0)) (nodes G))"
      by (intro arg_cong [where f = sum_list] map_cong refl) (auto simp: sbasal algebra_simps)
    also have "\<dots> = ?k + sum_list (map (\<lambda>j. ?a j * (s j - 1)) ?nb)"
      by (simp add: sum_list_addf k_in_def nonbasal_def sum_list_map_filter')
    also have "sum_list (map (\<lambda>j. ?a j * (s j - 1)) ?nb) = (\<Sum>m<?n. ?a (?nb ! m) * y ! m)"
      by (simp add: sum_list_sum_nth atLeast0LessThan snb)
    finally have "sum_list (map (\<lambda>j. ?a j * s j) (nodes G)) / ?k =
        1 + dot (P_matrix G weight ! k0) y"
      using k by (simp add: dotP add_divide_distrib)
    with yk snb [OF k0(1)] k0(2) show ?thesis by simp
  qed
  from cover sbasal rec show ?thesis by (intro exI [of _ s]) auto
qed

end
